theory Spec2Isabelle
  imports Complex_Main "HOL-Library.Log_Nat"
begin

text \<open>
  A model of \<open>unlock-bootloader.mjs\<close>: the class \<open>Bruteforce\<close>, which tries unlock codes on
  a device one after the other, and the parts of JavaScript it relies on, namely the
  arithmetic of Numbers, the conversions between Numbers and Strings, and the String
  methods it calls. Definitions carry the names of the source.
\<close>

section \<open>Texts\<close>

text \<open>
  A JavaScript string is modelled as a \<open>string\<close> (a list of characters). The texts the
  program handles (tool output, checkpoint files, numerals) are ASCII, and the model of
  \<open>toLowerCase\<close> and \<open>trim\<close> covers ASCII letters and ASCII white space.
\<close>

fun startsWith :: "string \<Rightarrow> string \<Rightarrow> bool" where
  "startsWith s [] = True"
| "startsWith [] (c # t) = False"
| "startsWith (d # s) (c # t) = (d = c \<and> startsWith s t)"

text \<open>
\<open>s.includes(t)\<close>: the text \<open>t\<close> occurs somewhere in \<open>s\<close>.
\<close>

fun str_includes :: "string \<Rightarrow> string \<Rightarrow> bool" where
  "str_includes [] t = startsWith [] t"
| "str_includes (d # s) t = (startsWith (d # s) t \<or> str_includes s t)"

definition lowerChar :: "char \<Rightarrow> char" where
  "lowerChar c =
     (case map_of (zip ''ABCDEFGHIJKLMNOPQRSTUVWXYZ'' ''abcdefghijklmnopqrstuvwxyz'') c of
        Some d \<Rightarrow> d | None \<Rightarrow> c)"

definition toLowerCase :: "string \<Rightarrow> string" where
  "toLowerCase s = map lowerChar s"

definition isWhiteSpace :: "char \<Rightarrow> bool" where
  "isWhiteSpace c = ((of_char c :: nat) \<in> {9, 10, 11, 12, 13, 32})"

definition trim :: "string \<Rightarrow> string" where
  "trim s = rev (dropWhile isWhiteSpace (rev (dropWhile isWhiteSpace s)))"

text \<open>
  \<open>s.padStart(targetLength, fillString)\<close>: a text that is long enough is returned as it
  is; a shorter one gets the fill text, repeated and cut to the missing length, in front.
\<close>

definition padStart :: "nat \<Rightarrow> string \<Rightarrow> string \<Rightarrow> string" where
  "padStart targetLength fillString s =
     (if targetLength \<le> length s \<or> fillString = [] then s
      else take (targetLength - length s)
             (concat (replicate (targetLength - length s) fillString)) @ s)"

section \<open>Numbers\<close>

text \<open>
  A Number is an IEEE 754 binary64 value. The finite ones are modelled by the rational
  they denote, which makes every operation the exact operation followed by rounding to
  the nearest double, ties to even (\<open>fl\<close>). The two zeros are one value \<open>Fin 0\<close>: no
  operation of the program tells them apart.

  \<open>ilog b q\<close> is the integer logarithm of a positive rational, \<open>binade q\<close> the exponent of
  the binade of \<open>q\<close> (the subnormal numbers share the lowest one), \<open>ulp q\<close> the distance of
  neighbouring doubles there, and \<open>round_grid\<close> rounds to a multiple of it. A result of
  2^1024 or more overflows to an infinity.
\<close>

datatype jsnum = NaN | PInf | NInf | Fin rat

definition rne :: "rat \<Rightarrow> int" where
  "rne r = (let f = \<lfloor>r\<rfloor>; d = r - of_int f in
     if d < 1 / 2 then f else if 1 / 2 < d then f + 1 else if even f then f else f + 1)"

definition ilog :: "nat \<Rightarrow> rat \<Rightarrow> int" where
  "ilog b q = (let (n, d) = quotient_of q;
                  k = int (floorlog b (nat n)) - int (floorlog b (nat d))
              in if of_nat b powi k \<le> q then k else k - 1)"

definition binade :: "rat \<Rightarrow> int" where
  "binade q = max (ilog 2 q) (- 1022)"

definition ulp :: "rat \<Rightarrow> rat" where
  "ulp q = 2 powi (binade q - 52)"

definition round_grid :: "rat \<Rightarrow> rat" where
  "round_grid q = of_int (rne (q / ulp q)) * ulp q"

definition fl :: "rat \<Rightarrow> jsnum" where
  "fl q = (if q = 0 then Fin 0 else
     let r = round_grid \<bar>q\<bar> in
     if 2 powi 1024 \<le> r then (if 0 < q then PInf else NInf) else Fin (sgn q * r))"

text \<open>
  The comparisons \<open><=\<close>, \<open>>=\<close> and \<open><\<close> of Numbers; every comparison with \<open>NaN\<close> is false.
\<close>

fun jsLe :: "jsnum \<Rightarrow> jsnum \<Rightarrow> bool" where
  "jsLe NaN y = False"
| "jsLe x NaN = False"
| "jsLe NInf y = True"
| "jsLe x PInf = True"
| "jsLe PInf y = False"
| "jsLe x NInf = False"
| "jsLe (Fin a) (Fin b) = (a \<le> b)"

definition jsGe :: "jsnum \<Rightarrow> jsnum \<Rightarrow> bool" where
  "jsGe x y = jsLe y x"

definition jsLt :: "jsnum \<Rightarrow> jsnum \<Rightarrow> bool" where
  "jsLt x y = (jsLe x y \<and> x \<noteq> y)"

text \<open>
  \<open>Math.sqrt\<close> is correctly rounded. \<open>isqrt\<close> is the integer square root. \<open>sqrt_arg q\<close> scales
  \<open>q\<close> by an even power of two so that the root has more than 60 bits, takes the integer
  root \<open>t\<close> and, when the root is not exact, stands for it by \<open>t + 1/2\<close>: the root lies
  strictly between \<open>t\<close> and \<open>t + 1\<close>, and no double and no midpoint of two doubles lies
  there, so that both round to the same double.
\<close>

function isqrt :: "int \<Rightarrow> int" where
  "isqrt n = (if n \<le> 0 then 0
              else let r = 2 * isqrt (n div 4) in if (r + 1) * (r + 1) \<le> n then r + 1 else r)"
  by pat_completeness auto
termination
  by (relation "measure nat") auto
declare isqrt.simps [simp del]

definition sqrt_arg :: "rat \<Rightarrow> rat" where
  "sqrt_arg q = (let p = 60 - ilog 2 q div 2; x = q * 4 powi p; t = isqrt \<lfloor>x\<rfloor> in
      if of_int (t * t) = x then of_int t / 2 powi p else (of_int t + 1 / 2) / 2 powi p)"

definition sqrt_fin :: "rat \<Rightarrow> jsnum" where
  "sqrt_fin q = fl (sqrt_arg q)"

text \<open>
  Addition, multiplication, \<open>Math.sqrt\<close>, \<open>Math.round\<close> (the integer nearest to the
  argument, a tie going up) and \<open>Math.trunc\<close>.
\<close>

fun jsAdd :: "jsnum \<Rightarrow> jsnum \<Rightarrow> jsnum" where
  "jsAdd NaN y = NaN"
| "jsAdd x NaN = NaN"
| "jsAdd PInf NInf = NaN"
| "jsAdd NInf PInf = NaN"
| "jsAdd PInf y = PInf"
| "jsAdd NInf y = NInf"
| "jsAdd x PInf = PInf"
| "jsAdd x NInf = NInf"
| "jsAdd (Fin a) (Fin b) = fl (a + b)"

definition sign_of :: "jsnum \<Rightarrow> int" where
  "sign_of x = (case x of NaN \<Rightarrow> 0 | PInf \<Rightarrow> 1 | NInf \<Rightarrow> - 1
     | Fin q \<Rightarrow> if q < 0 then - 1 else if q = 0 then 0 else 1)"

fun jsMul :: "jsnum \<Rightarrow> jsnum \<Rightarrow> jsnum" where
  "jsMul NaN y = NaN"
| "jsMul x NaN = NaN"
| "jsMul (Fin a) (Fin b) = fl (a * b)"
| "jsMul x y = (let s = sign_of x * sign_of y in
                 if s = 0 then NaN else if 0 < s then PInf else NInf)"

definition jsSqrt :: "jsnum \<Rightarrow> jsnum" where
  "jsSqrt x = (case x of NaN \<Rightarrow> NaN | NInf \<Rightarrow> NaN | PInf \<Rightarrow> PInf
     | Fin q \<Rightarrow> if q < 0 then NaN else if q = 0 then Fin 0 else sqrt_fin q)"

fun jsRound :: "jsnum \<Rightarrow> jsnum" where
  "jsRound (Fin q) = Fin (of_int \<lfloor>q + 1 / 2\<rfloor>)"
| "jsRound x = x"

fun jsTrunc :: "jsnum \<Rightarrow> jsnum" where
  "jsTrunc (Fin q) = Fin (if 0 \<le> q then of_int \<lfloor>q\<rfloor> else of_int \<lceil>q\<rceil>)"
| "jsTrunc x = x"

section \<open>Number to text\<close>

text \<open>
  \<open>String(x)\<close> for a Number \<open>x\<close> (Number::toString of ECMAScript, radix 10). For a positive
  \<open>q\<close> it takes the least number \<open>k\<close> of digits for which some integer \<open>s\<close> of \<open>k\<close> digits and
  some \<open>n\<close> give a decimal \<open>s * 10^(n - k)\<close> that rounds to \<open>q\<close>, among these the \<open>s\<close>
  nearest to \<open>q\<close>, and writes the digits in positional form when \<open>-5 \<le> n \<le> 21\<close>, in
  exponent form otherwise. \<open>digits_at k q\<close> looks at the two decimals of \<open>k\<close> digits around
  \<open>q\<close>; \<open>find_digits\<close> tries \<open>k = 1, 2, ...\<close>; seventeen digits always suffice for a normal
  number, and the bound given to the search is larger than that.
\<close>

definition pick_digits :: "nat \<Rightarrow> int \<Rightarrow> int \<Rightarrow> bool \<Rightarrow> bool \<Rightarrow> bool \<Rightarrow> (int \<times> int) option" where
  "pick_digits k lo n okl okh hi_nearer =
     (let hi = (if lo + 1 = 10 ^ k then (10 ^ (k - 1), n + 1) else (lo + 1, n)) in
      if okl \<and> okh then Some (if hi_nearer then hi else (lo, n))
      else if okl then Some (lo, n)
      else if okh then Some hi
      else None)"

definition digits_at :: "nat \<Rightarrow> rat \<Rightarrow> (int \<times> int) option" where
  "digits_at k q =
     (let n = ilog 10 q + 1; sc = 10 powi (n - int k); lo = \<lfloor>q / sc\<rfloor>;
          dl = q - of_int lo * sc; dh = of_int (lo + 1) * sc - q
      in pick_digits k lo n (fl (of_int lo * sc) = Fin q) (fl (of_int (lo + 1) * sc) = Fin q)
           (dh < dl \<or> (dh = dl \<and> odd lo)))"

fun find_digits :: "nat \<Rightarrow> nat \<Rightarrow> rat \<Rightarrow> nat \<times> int \<times> int" where
  "find_digits 0 k q =
     (case digits_at k q of Some (s, n) \<Rightarrow> (k, s, n)
      | None \<Rightarrow> (k, \<lfloor>q / 10 powi (ilog 10 q + 1 - int k)\<rfloor>, ilog 10 q + 1))"
| "find_digits (Suc f) k q =
     (case digits_at k q of Some (s, n) \<Rightarrow> (k, s, n) | None \<Rightarrow> find_digits f (Suc k) q)"

definition shortest_digits :: "rat \<Rightarrow> nat \<times> int \<times> int" where
  "shortest_digits q = find_digits (nat (ilog 10 q + max 0 (52 - binade q))) 1 q"

definition digit_char :: "int \<Rightarrow> char" where
  "digit_char d = ''0123456789'' ! nat d"

function digits_of :: "int \<Rightarrow> string" where
  "digits_of n = (if n < 10 then [digit_char n] else digits_of (n div 10) @ [digit_char (n mod 10)])"
  by pat_completeness auto
termination
  by (relation "measure nat") auto
declare digits_of.simps [simp del]

definition pos_to_string :: "rat \<Rightarrow> string" where
  "pos_to_string q =
     (let (k, s, n) = shortest_digits q; ds = digits_of s in
      if - 5 \<le> n \<and> n \<le> 21 then
        (if int k \<le> n then ds @ replicate (nat (n - int k)) CHR ''0''
         else if 0 < n then take (nat n) ds @ ''.'' @ drop (nat n) ds
         else ''0.'' @ replicate (nat (- n)) CHR ''0'' @ ds)
      else
        (let e = n - 1; es = (if e < 0 then ''-'' else ''+'') @ digits_of \<bar>e\<bar> in
         if k = 1 then ds @ ''e'' @ es else take 1 ds @ ''.'' @ drop 1 ds @ ''e'' @ es))"

definition numToString :: "jsnum \<Rightarrow> string" where
  "numToString x = (case x of NaN \<Rightarrow> ''NaN'' | PInf \<Rightarrow> ''Infinity'' | NInf \<Rightarrow> ''-Infinity''
     | Fin q \<Rightarrow> if q = 0 then ''0'' else if q < 0 then ''-'' @ pos_to_string (- q) else pos_to_string q)"

section \<open>Text to number\<close>

text \<open>
  \<open>Number(s)\<close> for a String \<open>s\<close>, which is also the conversion that \<open>s <= 0\<close> applies to
  \<open>s\<close> (StringToNumber of ECMAScript): white space around the text is dropped; the empty
  text is 0; a text is a binary, octal or hexadecimal integer literal, a signed
  \<open>Infinity\<close>, or a signed decimal literal with optional fraction and exponent; any
  other text is \<open>NaN\<close>. The value of a literal is rounded to the nearest double.
\<close>

definition isDigit :: "char \<Rightarrow> bool" where
  "isDigit c = (48 \<le> (of_char c :: nat) \<and> (of_char c :: nat) \<le> 57)"

definition digit_val :: "char \<Rightarrow> int" where
  "digit_val c = int (of_char c) - 48"

definition digits_val :: "string \<Rightarrow> int" where
  "digits_val ds = foldl (\<lambda>a c. 10 * a + digit_val c) 0 ds"

definition parse_exponent :: "string \<Rightarrow> int option" where
  "parse_exponent r =
     (case r of [] \<Rightarrow> Some 0
      | c # r' \<Rightarrow>
          if c = CHR ''e'' \<or> c = CHR ''E'' then
            (let neg = (r' \<noteq> [] \<and> hd r' = CHR ''-'');
                 ds = (if r' \<noteq> [] \<and> (hd r' = CHR ''-'' \<or> hd r' = CHR ''+'') then tl r' else r')
             in if ds \<noteq> [] \<and> list_all isDigit ds
                then Some (if neg then - digits_val ds else digits_val ds) else None)
          else None)"

definition parse_decimal :: "string \<Rightarrow> rat option" where
  "parse_decimal r =
     (let ip = takeWhile isDigit r; r1 = dropWhile isDigit r;
          dot = (r1 \<noteq> [] \<and> hd r1 = CHR ''.'');
          fp = (if dot then takeWhile isDigit (tl r1) else []);
          r2 = (if dot then dropWhile isDigit (tl r1) else r1)
      in if ip = [] \<and> fp = [] then None
         else case parse_exponent r2 of None \<Rightarrow> None
              | Some e \<Rightarrow> Some (of_int (digits_val (ip @ fp)) * 10 powi (e - int (length fp))))"

definition radix_digit :: "char \<Rightarrow> int" where
  "radix_digit c = (let n = (of_char c :: nat) in
     if 48 \<le> n \<and> n \<le> 57 then int n - 48
     else if 97 \<le> n \<and> n \<le> 102 then int n - 87
     else if 65 \<le> n \<and> n \<le> 70 then int n - 55 else 36)"

definition parse_radix :: "int \<Rightarrow> string \<Rightarrow> int option" where
  "parse_radix b ds =
     (if ds \<noteq> [] \<and> list_all (\<lambda>c. radix_digit c < b) ds
      then Some (foldl (\<lambda>a c. b * a + radix_digit c) 0 ds) else None)"

definition nondecimal :: "string \<Rightarrow> (int \<times> string) option" where
  "nondecimal t =
     (case t of c0 # c1 # ds \<Rightarrow>
        if c0 \<noteq> CHR ''0'' then None
        else if c1 = CHR ''x'' \<or> c1 = CHR ''X'' then Some (16, ds)
        else if c1 = CHR ''o'' \<or> c1 = CHR ''O'' then Some (8, ds)
        else if c1 = CHR ''b'' \<or> c1 = CHR ''B'' then Some (2, ds)
        else None
      | _ \<Rightarrow> None)"

definition strToNumber :: "string \<Rightarrow> jsnum" where
  "strToNumber s =
     (let t = trim s in
      if t = [] then Fin 0
      else case nondecimal t of
        Some (b, ds) \<Rightarrow> (case parse_radix b ds of Some v \<Rightarrow> fl (of_int v) | None \<Rightarrow> NaN)
      | None \<Rightarrow>
         (let neg = (hd t = CHR ''-'');
              r = (if hd t = CHR ''-'' \<or> hd t = CHR ''+'' then tl t else t)
          in if r = ''Infinity'' then (if neg then NInf else PInf)
             else case parse_decimal r of None \<Rightarrow> NaN
                  | Some v \<Rightarrow> fl (if neg then - v else v)))"

section \<open>The generator\<close>

text \<open>
  \<open>nextCode()\<close>, with the fields it reads as arguments:
  \<open>Math.round(Number(String(this.currentCode + Math.sqrt(imei) * 1024).padStart(16, "0")))\<close>.
\<close>

definition nextCode :: "jsnum \<Rightarrow> jsnum \<Rightarrow> jsnum" where
  "nextCode imei currentCode =
     jsRound (strToNumber (padStart 16 ''0''
       (numToString (jsAdd currentCode (jsMul (jsSqrt imei) (Fin 1024))))))"

text \<open>
  \<open>nextCode_pinned\<close> is not taken from the code. It follows the wording of the
  specification: the step is the square root of the identifier times 1024, truncated
  to an integer; it is added to the current code; the sum is rounded.
\<close>

definition nextCode_pinned :: "jsnum \<Rightarrow> jsnum \<Rightarrow> jsnum" where
  "nextCode_pinned identifier current_code =
     jsRound (jsAdd current_code (jsTrunc (jsMul (jsSqrt identifier) (Fin 1024))))"

section \<open>Errors and messages\<close>

text \<open>
  The exceptions the program throws, and \<open>TypeError\<close>, which \<open>writeFileSync\<close> throws.
\<close>

datatype exception =
    CodeNotFoundException string
  | CommandInvalidException string
  | UnknownOutputException
  | TypeError

text \<open>
  The message fragments of \<open>utils/_const.mjs\<close> (\<open>adbMessages\<close>) are not part of the
  sources at hand; they are a parameter of the model.
\<close>

record adbMessages =
  commandInvalid :: string
  oemUnlockFail :: string
  oemUnlockSuccess :: string

section \<open>Classifying the output of one attempt\<close>

text \<open>
  \<open>classify\<close> is the body of \<open>attemptCode\<close> after the command has run: \<open>adbOutput\<close> is the
  lower-cased, trimmed output. A thrown exception is \<open>Inl\<close>, a returned boolean \<open>Inr\<close>.
\<close>

definition classify :: "adbMessages \<Rightarrow> bool \<Rightarrow> string \<Rightarrow> exception + bool" where
  "classify msgs throwOnUnknownErrors adbOutput =
     (if str_includes adbOutput (commandInvalid msgs)
        then Inl (CommandInvalidException ''adb does not recognize the unlock command.'')
      else if str_includes adbOutput (oemUnlockFail msgs) then Inr False
      else if str_includes adbOutput (oemUnlockSuccess msgs) then Inr True
      else if throwOnUnknownErrors then Inl UnknownOutputException
      else Inr False)"

definition attemptOutput :: "adbMessages \<Rightarrow> bool \<Rightarrow> string \<Rightarrow> exception + bool" where
  "attemptOutput msgs throwOnUnknownErrors raw =
     classify msgs throwOnUnknownErrors (trim (toLowerCase raw))"

section \<open>Configuration\<close>

text \<open>
  The values read from \<open>config.json\<close>. An interval that is absent is \<open>None\<close>; the tests
  \<open>if (autorebootAfter)\<close> and \<open>if (saveStateAfter)\<close> hold for a number other than 0.
\<close>

record config =
  imei :: jsnum
  autorebootAfter :: "int option"
  throwOnUnknownErrors :: bool
  saveStateAfter :: "int option"

definition enabled :: "int option \<Rightarrow> bool" where
  "enabled v = (case v of None \<Rightarrow> False | Some n \<Rightarrow> n \<noteq> 0)"

definition interval :: "int option \<Rightarrow> int" where
  "interval v = (case v of None \<Rightarrow> 0 | Some n \<Rightarrow> n)"

section \<open>The engine\<close>

text \<open>
  The fields of a \<open>Bruteforce\<close> object, and the world around it: the two files the
  program reads and writes, and the log of what it did to the device and to the files.
  \<open>RegisterSignalHandlers\<close> logs the two calls of \<open>process.on\<close> at the end of \<open>start\<close>.
\<close>

record Bruteforce =
  attempt :: int
  currentCode :: jsnum
  lastSavedAttempt :: int
  lastRebootAttempt :: int

datatype event = Reboot | Attempt jsnum | SaveLastState jsnum | SaveBootloaderCode jsnum
  | RegisterSignalHandlers

record world =
  saved_state_file :: "string option"
  code_file :: "string option"
  events :: "event list"

text \<open>
  \<open>writeFileSync(path, data)\<close> of Node.js takes a string (or a buffer) as data. Since
  Node.js 14 it throws a \<open>TypeError\<close> for any other value, a number included, before it
  opens the file; the module cannot run on an older release, for it uses \<open>await\<close> at its
  top level. \<open>Inr\<close> is the new content of the file.
\<close>

datatype data = Text string | Number jsnum

definition writeFileSync :: "data \<Rightarrow> exception + string" where
  "writeFileSync d = (case d of Text s \<Rightarrow> Inr s | Number x \<Rightarrow> Inl TypeError)"

text \<open>
  The device: the output of the unlock command, given the number of attempts made
  before and the code.
\<close>

type_synonym device = "nat \<Rightarrow> jsnum \<Rightarrow> string"

text \<open>
  \<open>getLastSavedState\<close>: \<open>readFileSync\<close> throws when the file is absent, and the \<open>catch\<close>
  returns \<open>null\<close>; the guard is \<open>!content || content.trim() <= 0\<close>; the result is
  \<open>Number(content)\<close>.
\<close>

definition getLastSavedState :: "world \<Rightarrow> jsnum option" where
  "getLastSavedState w =
     (case saved_state_file w of
        None \<Rightarrow> None
      | Some content \<Rightarrow>
          if content = [] \<or> jsLe (strToNumber (trim content)) (Fin 0) then None
          else Some (strToNumber content))"

text \<open>
  \<open>saveLastState\<close> and \<open>saveBootloaderCode\<close> are \<open>async\<close> and are called without \<open>await\<close>:
  an exception of \<open>writeFileSync\<close> rejects a promise that nobody reads, and the caller
  goes on. The first passes the number \<open>code\<close>, the second a template string. Node.js 15
  and later end the process once a rejection has stayed unhandled; the model lets the
  run go on, so that the log of the process is an initial part of the log of the model.
\<close>

definition saveLastState :: "world \<Rightarrow> jsnum \<Rightarrow> world" where
  "saveLastState w code =
     (let w' = w\<lparr>events := events w @ [SaveLastState code]\<rparr> in
      case writeFileSync (Number code) of
        Inr s \<Rightarrow> w'\<lparr>saved_state_file := Some s\<rparr>
      | Inl e \<Rightarrow> w')"

definition saveBootloaderCode :: "config \<Rightarrow> world \<Rightarrow> jsnum \<Rightarrow> world" where
  "saveBootloaderCode cfg w code =
     (let w' = w\<lparr>events := events w @ [SaveBootloaderCode code]\<rparr> in
      case writeFileSync (Text (''The bootloader code for the device with IMEI ''
              @ numToString (imei cfg) @ '' is: '' @ numToString code)) of
        Inr s \<Rightarrow> w'\<lparr>code_file := Some s\<rparr>
      | Inl e \<Rightarrow> w')"

definition rebootDevice :: "world \<Rightarrow> world" where
  "rebootDevice w = w\<lparr>events := events w @ [Reboot]\<rparr>"

definition attempts_made :: "event list \<Rightarrow> nat" where
  "attempts_made es = length (filter (\<lambda>e. case e of Attempt c \<Rightarrow> True | _ \<Rightarrow> False) es)"

definition attemptCode :: "config \<Rightarrow> adbMessages \<Rightarrow> device \<Rightarrow> world \<Rightarrow> jsnum \<Rightarrow> (exception + bool) \<times> world" where
  "attemptCode cfg msgs dev w code =
     (attemptOutput msgs (throwOnUnknownErrors cfg) (dev (attempts_made (events w)) code),
      w\<lparr>events := events w @ [Attempt code]\<rparr>)"

text \<open>
  The two periodic actions of \<open>bruteforce\<close> after a rejected attempt, and the step to the
  next code. No assignment to \<open>this.attempt\<close> stands in \<open>bruteforce\<close>.
\<close>

definition periodicReboot :: "config \<Rightarrow> Bruteforce \<times> world \<Rightarrow> Bruteforce \<times> world" where
  "periodicReboot cfg bw =
     (let (b, w) = bw in
      if enabled (autorebootAfter cfg)
         \<and> interval (autorebootAfter cfg) - 1 \<le> attempt b - lastRebootAttempt b
      then (b\<lparr>lastRebootAttempt := attempt b\<rparr>, rebootDevice w)
      else (b, w))"

definition periodicSave :: "config \<Rightarrow> Bruteforce \<times> world \<Rightarrow> Bruteforce \<times> world" where
  "periodicSave cfg bw =
     (let (b, w) = bw in
      if enabled (saveStateAfter cfg)
         \<and> interval (saveStateAfter cfg) - 1 \<le> attempt b - lastSavedAttempt b
      then (b\<lparr>lastSavedAttempt := attempt b\<rparr>, saveLastState w (currentCode b))
      else (b, w))"

definition afterRejected :: "config \<Rightarrow> Bruteforce \<times> world \<Rightarrow> Bruteforce \<times> world" where
  "afterRejected cfg bw =
     (let (b, w) = periodicSave cfg (periodicReboot cfg bw) in
      (b\<lparr>currentCode := nextCode (imei cfg) (currentCode b)\<rparr>, w))"

definition ceiling_code :: jsnum where
  "ceiling_code = Fin 10000000000000000"

text \<open>
  \<open>bruteforce\<close> calls itself until a code is accepted or an exception is thrown, which
  need not happen. The model counts the attempts it may still make: the result \<open>None\<close>
  is a run that is still going on after that many attempts, \<open>Some (Inl e)\<close> a thrown
  exception, \<open>Some (Inr c)\<close> the returned code.
\<close>

fun bruteforce :: "nat \<Rightarrow> config \<Rightarrow> adbMessages \<Rightarrow> device \<Rightarrow> Bruteforce \<times> world
    \<Rightarrow> (exception + jsnum) option \<times> Bruteforce \<times> world" where
  "bruteforce 0 cfg msgs dev (b, w) = (None, b, w)"
| "bruteforce (Suc n) cfg msgs dev (b, w) =
     (let (result, w1) = attemptCode cfg msgs dev w (currentCode b) in
      case result of
        Inl e \<Rightarrow> (Some (Inl e), b, w1)
      | Inr ok \<Rightarrow>
          if ok then (Some (Inr (currentCode b)), b, saveBootloaderCode cfg w1 (currentCode b))
          else
            (let (b', w') = afterRejected cfg (b, w1) in
             if jsGe (currentCode b') ceiling_code
             then (Some (Inl (CodeNotFoundException ''No combination found'')), b', w')
             else bruteforce n cfg msgs dev (b', w')))"

definition new_Bruteforce :: Bruteforce where
  "new_Bruteforce = \<lparr>attempt = 0, currentCode = Fin 1000000000000000,
                      lastSavedAttempt = 0, lastRebootAttempt = 0\<rparr>"

text \<open>
  \<open>start\<close>: the handlers are registered by the statement after \<open>await this.bruteforce()\<close>,
  which is reached when \<open>bruteforce\<close> has returned.
\<close>

definition start :: "nat \<Rightarrow> config \<Rightarrow> adbMessages \<Rightarrow> device \<Rightarrow> world
    \<Rightarrow> (exception + jsnum) option \<times> Bruteforce \<times> world" where
  "start fuel cfg msgs dev w =
     (let b0 = new_Bruteforce\<lparr>attempt := 0,
                 currentCode := (case getLastSavedState w of Some x \<Rightarrow> x
                                 | None \<Rightarrow> Fin 1000000000000000)\<rparr>;
          w1 = rebootDevice w;
          b1 = b0\<lparr>currentCode := nextCode (imei cfg) (currentCode b0)\<rparr>;
          (r, b2, w2) = bruteforce fuel cfg msgs dev (b1, w1)
      in case r of
           Some (Inr code) \<Rightarrow> (r, b2, w2\<lparr>events := events w2 @ [RegisterSignalHandlers]\<rparr>)
         | _ \<Rightarrow> (r, b2, w2))"

section \<open>Two devices and their messages\<close>

text \<open>
  Message fragments and two devices for concrete runs: one rejects every code, one
  accepts every code.
\<close>

definition test_messages :: adbMessages where
  "test_messages = \<lparr>commandInvalid = ''unknown command'',
                      oemUnlockFail = ''check password failed'', oemUnlockSuccess = ''okay''\<rparr>"

definition rejecting :: device where
  "rejecting n code = ''FAILED (remote: check password failed)''"

definition accepting :: device where
  "accepting n code = ''OKAY [  0.010s]''"

section \<open>Decimal literals\<close>

text \<open>
  The texts that \<open>numToString\<close> produces for positive numbers: digits, an optional
  fraction, an optional exponent. They serve in the proof that a number is read back
  from its text.
\<close>

definition fmt :: "string \<Rightarrow> string \<Rightarrow> (bool \<times> string) option \<Rightarrow> string" where
  "fmt ip fp ex = ip @ (if fp = [] then [] else CHR ''.'' # fp) @
     (case ex of None \<Rightarrow> [] | Some (neg, ds) \<Rightarrow> CHR ''e'' # (if neg then CHR ''-'' else CHR ''+'') # ds)"

definition ex_val :: "(bool \<times> string) option \<Rightarrow> int" where
  "ex_val ex = (case ex of None \<Rightarrow> 0 | Some (neg, ds) \<Rightarrow> if neg then - digits_val ds else digits_val ds)"

definition ex_ok :: "(bool \<times> string) option \<Rightarrow> bool" where
  "ex_ok ex = (case ex of None \<Rightarrow> True | Some (neg, ds) \<Rightarrow> ds \<noteq> [] \<and> list_all isDigit ds)"

section \<open>Properties of rounding\<close>

subsection \<open>The integer logarithm\<close>

lemma ilog_bounds:
  assumes b: "1 < b" and q: "0 < q"
  shows "of_nat b powi ilog b q \<le> q \<and> q < of_nat b powi (ilog b q + 1)"
proof -
  obtain n d where nd: "quotient_of q = (n, d)" by (cases "quotient_of q")
  have d: "0 < d" by (rule quotient_of_denom_pos [OF nd])
  have qe: "q = of_int n / of_int d" by (rule quotient_of_div [OF nd])
  have n: "0 < n" using q d unfolding qe by (simp add: zero_less_divide_iff)
  define B :: rat where "B = of_nat b"
  have B1: "1 < B" using b by (simp add: B_def)
  have B0: "0 < B" "B \<noteq> 0" using B1 by auto
  define ln where "ln = floorlog b (nat n)"
  define ld where "ld = floorlog b (nat d)"
  have bn: "b ^ (ln - 1) \<le> nat n \<and> nat n < b ^ ln"
    unfolding ln_def using floorlog_bounds [of "nat n" b] n b by simp
  have bd: "b ^ (ld - 1) \<le> nat d \<and> nat d < b ^ ld"
    unfolding ld_def using floorlog_bounds [of "nat d" b] d b by simp
  have ln1: "1 \<le> ln" using bn n by (cases ln) auto
  have ld1: "1 \<le> ld" using bd d by (cases ld) auto
  have n_lo: "B ^ (ln - 1) \<le> of_int n"
  proof -
    have "(of_nat (b ^ (ln - 1)) :: rat) \<le> of_nat (nat n)" using bn by (simp only: of_nat_le_iff)
    then show ?thesis using n by (simp add: B_def)
  qed
  have n_hi: "of_int n < B ^ ln"
  proof -
    have "(of_nat (nat n) :: rat) < of_nat (b ^ ln)" using bn by (simp only: of_nat_less_iff)
    then show ?thesis using n by (simp add: B_def)
  qed
  have d_lo: "B ^ (ld - 1) \<le> of_int d"
  proof -
    have "(of_nat (b ^ (ld - 1)) :: rat) \<le> of_nat (nat d)" using bd by (simp only: of_nat_le_iff)
    then show ?thesis using d by (simp add: B_def)
  qed
  have d_hi: "of_int d < B ^ ld"
  proof -
    have "(of_nat (nat d) :: rat) < of_nat (b ^ ld)" using bd by (simp only: of_nat_less_iff)
    then show ?thesis using d by (simp add: B_def)
  qed
  define k where "k = int ln - int ld"
  have pk1: "B powi (k + 1) = B ^ ln / B ^ (ld - 1)"
  proof -
    have "k + 1 = int ln - int (ld - 1)" using ld1 by (simp add: k_def)
    then show ?thesis using B0 by (simp add: power_int_diff)
  qed
  have pkm: "B powi (k - 1) = B ^ (ln - 1) / B ^ ld"
  proof -
    have "k - 1 = int (ln - 1) - int ld" using ln1 by (simp add: k_def)
    then show ?thesis using B0 by (simp add: power_int_diff)
  qed
  have up: "q < B powi (k + 1)"
    unfolding pk1 qe using n n_hi d_lo B0 by (intro frac_less) auto
  have low: "B powi (k - 1) < q"
    unfolding pkm qe using n_lo d d_hi B0 by (intro frac_less2) auto
  have il: "ilog b q = (if B powi k \<le> q then k else k - 1)"
    by (simp add: ilog_def nd k_def ln_def ld_def B_def)
  show ?thesis
  proof (cases "B powi k \<le> q")
    case True
    then show ?thesis using up il by (simp add: B_def)
  next
    case False
    then have "q < B powi k" by simp
    then show ?thesis using low il False by (simp add: B_def)
  qed
qed

lemma powi_less_imp_less:
  fixes B :: rat
  assumes "1 < B" "B powi m < B powi n"
  shows "m < n"
proof (rule ccontr)
  assume "\<not> m < n"
  then have "n \<le> m" by simp
  then have "B powi n \<le> B powi m" using assms(1) by (intro power_int_increasing) auto
  with assms(2) show False by simp
qed

lemma ilog_unique:
  assumes b: "1 < b" and lo: "of_nat b powi e \<le> q" and hi: "q < of_nat b powi (e + 1)"
  shows "ilog b q = e"
proof -
  define B :: rat where "B = of_nat b"
  have B1: "1 < B" using b by (simp add: B_def)
  have "0 < B powi e" using B1 by simp
  then have q: "0 < q" using lo by (simp add: B_def)
  from ilog_bounds [OF b q]
  have i: "B powi ilog b q \<le> q" "q < B powi (ilog b q + 1)" by (simp_all add: B_def)
  have "B powi ilog b q < B powi (e + 1)" using i(1) hi by (simp add: B_def)
  then have 1: "ilog b q < e + 1" by (rule powi_less_imp_less [OF B1])
  have "B powi e < B powi (ilog b q + 1)" using i(2) lo by (simp add: B_def)
  then have 2: "e < ilog b q + 1" by (rule powi_less_imp_less [OF B1])
  from 1 2 show ?thesis by simp
qed

lemma ilog_mono:
  assumes b: "1 < b" and x: "0 < x" and xy: "x \<le> y"
  shows "ilog b x \<le> ilog b y"
proof -
  define B :: rat where "B = of_nat b"
  have B1: "1 < B" using b by (simp add: B_def)
  have y: "0 < y" using x xy by simp
  have "B powi ilog b x \<le> x" using ilog_bounds [OF b x] by (simp add: B_def)
  moreover have "y < B powi (ilog b y + 1)" using ilog_bounds [OF b y] by (simp add: B_def)
  ultimately have "B powi ilog b x < B powi (ilog b y + 1)" using xy by simp
  then have "ilog b x < ilog b y + 1" by (rule powi_less_imp_less [OF B1])
  then show ?thesis by simp
qed

lemma ilog_ge:
  assumes b: "1 < b" and lo: "of_nat b powi e \<le> q"
  shows "e \<le> ilog b q"
proof -
  define B :: rat where "B = of_nat b"
  have B1: "1 < B" using b by (simp add: B_def)
  have "0 < B powi e" using B1 by simp
  then have q: "0 < q" using lo by (simp add: B_def)
  have "q < B powi (ilog b q + 1)" using ilog_bounds [OF b q] by (simp add: B_def)
  then have "B powi e < B powi (ilog b q + 1)" using lo by (simp add: B_def)
  then have "e < ilog b q + 1" by (rule powi_less_imp_less [OF B1])
  then show ?thesis by simp
qed

lemma ilog_less:
  assumes b: "1 < b" and q: "0 < q" and hi: "q < of_nat b powi e"
  shows "ilog b q < e"
proof -
  define B :: rat where "B = of_nat b"
  have B1: "1 < B" using b by (simp add: B_def)
  have "B powi ilog b q \<le> q" using ilog_bounds [OF b q] by (simp add: B_def)
  then have "B powi ilog b q < B powi e" using hi by (simp add: B_def)
  then show ?thesis by (rule powi_less_imp_less [OF B1])
qed

subsection \<open>Rounding to an integer\<close>

lemma rne_of_int [simp]: "rne (of_int n) = n"
  by (simp add: rne_def)

lemma rne_cases:
  "rne r = \<lfloor>r\<rfloor> \<and> r - of_int \<lfloor>r\<rfloor> \<le> 1 / 2 \<or> rne r = \<lfloor>r\<rfloor> + 1 \<and> 1 / 2 \<le> r - of_int \<lfloor>r\<rfloor>"
  unfolding rne_def Let_def by (simp add: not_less)

lemma rne_bounds: "of_int (rne r) - 1 / 2 \<le> r \<and> r \<le> of_int (rne r) + 1 / 2"
proof -
  have f: "of_int \<lfloor>r\<rfloor> \<le> r" "r < of_int \<lfloor>r\<rfloor> + 1" by linarith+
  from rne_cases [of r] show ?thesis
  proof
    assume "rne r = \<lfloor>r\<rfloor> \<and> r - of_int \<lfloor>r\<rfloor> \<le> 1 / 2"
    then show ?thesis using f by linarith
  next
    assume a: "rne r = \<lfloor>r\<rfloor> + 1 \<and> 1 / 2 \<le> r - of_int \<lfloor>r\<rfloor>"
    then have "of_int (rne r) = (of_int \<lfloor>r\<rfloor> :: rat) + 1" by simp
    then show ?thesis using f a by linarith
  qed
qed

lemma rne_floor_bounds: "\<lfloor>r\<rfloor> \<le> rne r \<and> rne r \<le> \<lfloor>r\<rfloor> + 1"
  by (simp add: rne_def Let_def)

lemma rne_mono:
  assumes "x \<le> y"
  shows "rne x \<le> rne y"
proof -
  have "\<lfloor>x\<rfloor> \<le> \<lfloor>y\<rfloor>" using assms by (rule floor_mono)
  then consider "\<lfloor>x\<rfloor> < \<lfloor>y\<rfloor>" | "\<lfloor>x\<rfloor> = \<lfloor>y\<rfloor>" by linarith
  then show ?thesis
  proof cases
    case 1
    then show ?thesis using rne_floor_bounds [of x] rne_floor_bounds [of y] by linarith
  next
    case 2
    then show ?thesis using assms by (auto simp: rne_def Let_def)
  qed
qed

lemma rne_unique:
  assumes "\<bar>r - of_int n\<bar> < 1 / 2"
  shows "rne r = n"
proof (cases "of_int n \<le> r")
  case True
  then have f: "\<lfloor>r\<rfloor> = n" using assms by (intro floor_unique) auto
  show ?thesis using assms True by (simp add: rne_def f)
next
  case False
  then have f: "\<lfloor>r\<rfloor> = n - 1" using assms by (intro floor_unique) auto
  show ?thesis using assms False by (auto simp: rne_def f Let_def)
qed

subsection \<open>The binade and its grid\<close>

lemma binade_ge: "- 1022 \<le> binade q"
  by (simp add: binade_def)

lemma binade_upper: "0 < q \<Longrightarrow> q < 2 powi (binade q + 1)"
proof -
  assume q: "0 < q"
  have "q < 2 powi (ilog 2 q + 1)" using ilog_bounds [of 2 q] q by simp
  also have "\<dots> \<le> 2 powi (binade q + 1)"
    by (intro power_int_increasing) (auto simp: binade_def)
  finally show ?thesis .
qed

lemma binade_normal:
  assumes "2 powi (- 1022) \<le> q"
  shows "binade q = ilog 2 q" and "2 powi binade q \<le> q"
proof -
  have "0 < (2::rat) powi (- 1022)" by simp
  then have q: "0 < q" using assms by linarith
  have "- 1022 \<le> ilog 2 q" using ilog_ge [of 2 "- 1022" q] assms by simp
  then show 1: "binade q = ilog 2 q" by (simp add: binade_def)
  show "2 powi binade q \<le> q" unfolding 1 using ilog_bounds [of 2 q] q by simp
qed

lemma binade_subnormal:
  assumes "0 < q" "q < 2 powi (- 1022)"
  shows "binade q = - 1022"
proof -
  have "ilog 2 q < - 1022" using ilog_less [of 2 q "- 1022"] assms by simp
  then show ?thesis by (simp add: binade_def)
qed

lemma binade_unique:
  assumes "2 powi e \<le> q" "q < 2 powi (e + 1)" "- 1022 \<le> e"
  shows "binade q = e"
proof -
  have "ilog 2 q = e" using ilog_unique [of 2 e q] assms by simp
  then show ?thesis using assms(3) by (simp add: binade_def)
qed

lemma binade_mono: "0 < x \<Longrightarrow> x \<le> y \<Longrightarrow> binade x \<le> binade y"
  using ilog_mono [of 2 x y] by (simp add: binade_def)

lemma ulp_pos [simp]: "0 < ulp q"
  by (simp add: ulp_def)

lemma ulp_nonneg [simp]: "0 \<le> ulp q"
  by (simp add: ulp_def)

lemma ulp_neq0 [simp]: "ulp q \<noteq> 0"
  by (simp add: ulp_def)

lemma rne_ulp_le:
  assumes q: "0 < q"
  shows "rne (q / ulp q) \<le> 2 ^ 53"
proof -
  have "q / ulp q < 2 powi (binade q + 1) / ulp q"
    using binade_upper [OF q] by (simp add: divide_strict_right_mono)
  also have "\<dots> = 2 powi ((binade q + 1) - (binade q - 52))"
    unfolding ulp_def by (subst power_int_diff) auto
  also have "\<dots> = of_int (2 ^ 53)" by simp
  finally have "rne (q / ulp q) \<le> rne (of_int (2 ^ 53))" by (intro rne_mono) simp
  then show ?thesis by (simp only: rne_of_int)
qed

lemma rne_ulp_nonneg:
  assumes "0 \<le> q"
  shows "0 \<le> rne (q / ulp q)"
proof -
  have "0 \<le> q / ulp q" using assms by simp
  then have "rne (of_int 0) \<le> rne (q / ulp q)" by (intro rne_mono) simp
  then show ?thesis by (simp only: rne_of_int)
qed

lemma round_grid_le_top:
  assumes q: "0 < q"
  shows "round_grid q \<le> 2 powi (binade q + 1)"
proof -
  have "(of_int (rne (q / ulp q)) :: rat) \<le> of_int (2 ^ 53)"
    using rne_ulp_le [OF q] by (simp only: of_int_le_iff)
  then have "round_grid q \<le> of_int (2 ^ 53) * ulp q"
    unfolding round_grid_def by (intro mult_right_mono) auto
  also have "\<dots> = 2 powi 53 * 2 powi (binade q - 52)" by (simp add: ulp_def)
  also have "\<dots> = 2 powi (53 + (binade q - 52))" by (subst power_int_add) auto
  also have "53 + (binade q - 52) = binade q + 1" by simp
  finally show ?thesis .
qed

lemma round_grid_ge_bot:
  assumes "2 powi (- 1022) \<le> q"
  shows "2 powi binade q \<le> round_grid q"
proof -
  have "2 powi binade q / ulp q \<le> q / ulp q"
    using binade_normal(2) [OF assms] by (intro divide_right_mono) auto
  moreover have "2 powi binade q / ulp q = 2 powi (binade q - (binade q - 52))"
    unfolding ulp_def by (subst power_int_diff) auto
  moreover have "(2::rat) powi (binade q - (binade q - 52)) = of_int (2 ^ 52)" by simp
  ultimately have "rne (of_int (2 ^ 52)) \<le> rne (q / ulp q)" by (intro rne_mono) simp
  then have "2 ^ 52 \<le> rne (q / ulp q)" by (simp only: rne_of_int)
  then have "(of_int (2 ^ 52) :: rat) \<le> of_int (rne (q / ulp q))" by (simp only: of_int_le_iff)
  then have "of_int (2 ^ 52) * ulp q \<le> round_grid q"
    unfolding round_grid_def by (intro mult_right_mono) auto
  moreover have "of_int (2 ^ 52) * ulp q = 2 powi 52 * 2 powi (binade q - 52)" by (simp add: ulp_def)
  moreover have "(2::rat) powi 52 * 2 powi (binade q - 52) = 2 powi (52 + (binade q - 52))"
    by (subst power_int_add) auto
  moreover have "52 + (binade q - 52) = binade q" by simp
  ultimately show ?thesis by simp
qed

lemma round_grid_nonneg: "0 \<le> q \<Longrightarrow> 0 \<le> round_grid q"
  using rne_ulp_nonneg [of q] by (simp add: round_grid_def)

lemma round_grid_mono:
  assumes x: "0 < x" and xy: "x \<le> y"
  shows "round_grid x \<le> round_grid y"
proof -
  have y: "0 < y" using x xy by simp
  have "binade x \<le> binade y" using binade_mono [OF x xy] .
  then consider "binade x = binade y" | "binade x < binade y" by linarith
  then show ?thesis
  proof cases
    case 1
    then have u: "ulp x = ulp y" by (simp add: ulp_def)
    have "x / ulp y \<le> y / ulp y" using xy by (intro divide_right_mono) auto
    then have "rne (x / ulp y) \<le> rne (y / ulp y)" by (rule rne_mono)
    then have "(of_int (rne (x / ulp y)) :: rat) \<le> of_int (rne (y / ulp y))" by simp
    then show ?thesis unfolding round_grid_def u by (intro mult_right_mono) auto
  next
    case 2
    have n: "2 powi (- 1022) \<le> y"
    proof (rule ccontr)
      assume "\<not> 2 powi (- 1022) \<le> y"
      then have "binade y = - 1022" using binade_subnormal [OF y] by simp
      then show False using 2 binade_ge [of x] by simp
    qed
    have "round_grid x \<le> 2 powi (binade x + 1)" by (rule round_grid_le_top [OF x])
    also have "\<dots> \<le> 2 powi binade y" using 2 by (intro power_int_increasing) auto
    also have "\<dots> \<le> round_grid y" by (rule round_grid_ge_bot [OF n])
    finally show ?thesis .
  qed
qed

lemma round_grid_exact:
  assumes m: "0 < m" "m < 2 ^ 53" and e: "- 1074 \<le> e"
  shows "round_grid (of_int m * 2 powi e) = of_int m * 2 powi e"
proof -
  define q :: rat where "q = of_int m * 2 powi e"
  have q: "0 < q" using m by (simp add: q_def)
  have be: "binade q - 52 \<le> e"
  proof (cases "2 powi (- 1022) \<le> q")
    case True
    have "2 powi binade q \<le> q" by (rule binade_normal(2) [OF True])
    also have "q < of_int (2 ^ 53) * 2 powi e"
      unfolding q_def using m by (intro mult_strict_right_mono) (simp_all only: of_int_less_iff zero_less_power_int zero_less_numeral)
    also have "of_int (2 ^ 53) * 2 powi e = (2::rat) powi 53 * 2 powi e" by simp
    also have "\<dots> = 2 powi (53 + e)" by (subst power_int_add) auto
    finally have "binade q < 53 + e" by (intro powi_less_imp_less [of 2]) auto
    then show ?thesis by simp
  next
    case False
    then have "binade q = - 1022" using binade_subnormal [OF q] by simp
    then show ?thesis using e by simp
  qed
  define j where "j = nat (e - (binade q - 52))"
  have "q / ulp q = of_int m * (2 powi e / 2 powi (binade q - 52))"
    by (simp add: q_def ulp_def)
  also have "2 powi e / 2 powi (binade q - 52) = (2::rat) powi (e - (binade q - 52))"
    by (subst power_int_diff) auto
  also have "\<dots> = 2 ^ j" using be by (simp add: j_def power_int_nonneg_exp)
  finally have "q / ulp q = of_int (m * 2 ^ j)" by simp
  then have "rne (q / ulp q) = m * 2 ^ j" by (simp only: rne_of_int)
  then have "round_grid q = of_int (m * 2 ^ j) * ulp q" by (simp add: round_grid_def)
  also have "\<dots> = q / ulp q * ulp q" using \<open>q / ulp q = of_int (m * 2 ^ j)\<close> by simp
  also have "\<dots> = q" by simp
  finally show ?thesis by (simp add: q_def)
qed

subsection \<open>Rounding to a double\<close>

lemma fl_0 [simp]: "fl 0 = Fin 0"
  by (simp add: fl_def)

lemma fl_pos:
  "0 < q \<Longrightarrow> fl q = (if 2 powi 1024 \<le> round_grid q then PInf else Fin (round_grid q))"
  by (simp add: fl_def Let_def)

lemma fl_neg:
  "q < 0 \<Longrightarrow> fl q = (if 2 powi 1024 \<le> round_grid (- q) then NInf else Fin (- round_grid (- q)))"
  by (simp add: fl_def Let_def)

lemma fl_mono:
  assumes "0 \<le> x" "x \<le> y"
  shows "jsLe (fl x) (fl y)"
proof (cases "x = 0")
  case True
  show ?thesis
  proof (cases "y = 0")
    case True
    with \<open>x = 0\<close> show ?thesis by simp
  next
    case False
    then have y: "0 < y" using assms True by simp
    show ?thesis using True round_grid_nonneg [of y] y by (simp add: fl_pos)
  qed
next
  case False
  then have x: "0 < x" using assms by simp
  then have y: "0 < y" using assms by simp
  show ?thesis using round_grid_mono [OF x assms(2)] by (simp add: fl_pos x y)
qed

lemma fl_exact:
  assumes "0 < m" "m < 2 ^ 53" "- 1074 \<le> e" "of_int m * 2 powi e < (2::rat) powi 1024"
  shows "fl (of_int m * 2 powi e) = Fin (of_int m * 2 powi e)"
proof -
  have "0 < (of_int m :: rat) * 2 powi e" using assms(1) by simp
  then show ?thesis using assms by (simp add: fl_pos round_grid_exact del: power_int_numeral)
qed

lemma fl_nat:
  assumes "0 \<le> n" "n \<le> 2 ^ 53"
  shows "fl (of_int n) = Fin (of_int n)"
proof -
  consider "n = 0" | "0 < n" "n < 2 ^ 53" | "n = 2 ^ 53" using assms by linarith
  then show ?thesis
  proof cases
    case 1
    then show ?thesis by simp
  next
    case 2
    have "of_int n * 2 powi 0 < (2::rat) powi 1024"
    proof -
      have "(of_int n :: rat) < of_int (2 ^ 53)" using 2 by (simp only: of_int_less_iff)
      also have "\<dots> < 2 powi 1024" by simp
      finally show ?thesis by simp
    qed
    from fl_exact [OF 2 _ this] show ?thesis by simp
  next
    case 3
    have "fl (of_int 1 * 2 powi 53) = Fin (of_int 1 * 2 powi 53)"
      by (rule fl_exact) simp_all
    then show ?thesis using 3 by simp
  qed
qed

lemma fl_idem_pos:
  assumes q: "0 < q" and r: "fl q = Fin r"
  shows "fl r = Fin r"
proof -
  have rr: "r = round_grid q" and small: "round_grid q < 2 powi 1024"
    using r by (auto simp: fl_pos [OF q] split: if_splits)
  define M where "M = rne (q / ulp q)"
  have rM: "r = of_int M * 2 powi (binade q - 52)"
    by (simp add: rr round_grid_def M_def ulp_def)
  have M0: "0 \<le> M" unfolding M_def using q by (intro rne_ulp_nonneg) simp
  have M53: "M \<le> 2 ^ 53" unfolding M_def by (rule rne_ulp_le [OF q])
  have e: "- 1074 \<le> binade q - 52" using binade_ge [of q] by simp
  consider "M = 0" | "0 < M" "M < 2 ^ 53" | "M = 2 ^ 53" using M0 M53 by linarith
  then show ?thesis
  proof cases
    case 1
    then show ?thesis by (simp add: rM)
  next
    case 2
    have "of_int M * 2 powi (binade q - 52) < (2::rat) powi 1024" using small rr rM by simp
    from fl_exact [OF 2 e this] show ?thesis by (simp add: rM)
  next
    case 3
    have "r = 2 powi 53 * 2 powi (binade q - 52)" using 3 rM by simp
    also have "\<dots> = 2 powi (53 + (binade q - 52))" by (subst power_int_add) auto
    finally have r2: "r = of_int 1 * 2 powi (binade q + 1)" by (simp add: add.commute)
    have "of_int 1 * 2 powi (binade q + 1) < (2::rat) powi 1024" using small rr r2 by simp
    from fl_exact [OF _ _ _ this] e show ?thesis by (simp add: r2)
  qed
qed

lemma fl_idem:
  assumes "fl q = Fin r"
  shows "fl r = Fin r"
proof -
  consider "q = 0" | "0 < q" | "q < 0" by linarith
  then show ?thesis
  proof cases
    case 1
    then show ?thesis using assms by auto
  next
    case 2
    then show ?thesis using assms by (rule fl_idem_pos)
  next
    case 3
    then have q': "0 < - q" by simp
    have rr: "r = - round_grid (- q)" and small: "round_grid (- q) < 2 powi 1024"
      using assms by (auto simp: fl_neg [OF 3] split: if_splits)
    have "fl (- q) = Fin (- r)" using small rr by (simp add: fl_pos [OF q'])
    then have p: "fl (- r) = Fin (- r)" by (rule fl_idem_pos [OF q'])
    show ?thesis
    proof (cases "r = 0")
      case True
      then show ?thesis by simp
    next
      case False
      have "0 \<le> round_grid (- q)" using q' by (intro round_grid_nonneg) simp
      then have r0: "r < 0" using rr False by simp
      then have "0 < - r" by simp
      from p have "round_grid (- r) = - r" "round_grid (- r) < 2 powi 1024"
        by (auto simp: fl_pos [OF \<open>0 < - r\<close>] split: if_splits)
      then show ?thesis by (simp add: fl_neg [OF r0])
    qed
  qed
qed

lemma double_grid:
  assumes q: "0 < q" and d: "fl q = Fin q"
  shows "q = of_int (rne (q / ulp q)) * 2 powi (binade q - 52)"
  using d by (auto simp: fl_pos [OF q] round_grid_def ulp_def split: if_splits)

lemma double_large_int:
  assumes d: "fl q = Fin q" and big: "2 ^ 52 \<le> q"
  shows "q \<in> \<int>"
proof -
  have q: "0 < q" using big by (simp add: less_le_trans [of 0 "2 ^ 52"])
  have "(2::rat) powi 52 \<le> q" using big by simp
  then have "52 \<le> ilog 2 q" using ilog_ge [of 2 52 q] by simp
  then have b: "52 \<le> binade q" by (simp add: binade_def)
  then have "(2::rat) powi (binade q - 52) = 2 ^ nat (binade q - 52)"
    by (simp add: power_int_nonneg_exp)
  then have "q = of_int (rne (q / ulp q) * 2 ^ nat (binade q - 52))"
    using double_grid [OF q d] by simp
  then show ?thesis by (metis Ints_of_int)
qed

lemma double_le_max:
  assumes d: "fl q = Fin q"
  shows "q \<le> 2 ^ 1024 - 2 ^ 971"
proof (cases "0 < q")
  case False
  then have "q \<le> 0" by simp
  also have "(0::rat) \<le> 2 ^ 1024 - 2 ^ 971" by simp
  finally show ?thesis .
next
  case True
  have small: "round_grid q < 2 powi 1024" and rq: "round_grid q = q"
    using d by (auto simp: fl_pos [OF True] split: if_splits)
  show ?thesis
  proof (cases "binade q \<le> 1022")
    case True
    have "q < 2 powi (binade q + 1)" by (rule binade_upper [OF \<open>0 < q\<close>])
    also have "\<dots> \<le> 2 powi 1023" using True by (intro power_int_increasing) auto
    also have "\<dots> \<le> 2 ^ 1024 - 2 ^ 971" by simp
    finally show ?thesis by simp
  next
    case False
    have n: "2 powi (- 1022) \<le> q"
    proof (rule ccontr)
      assume "\<not> 2 powi (- 1022) \<le> q"
      then have "binade q = - 1022" using binade_subnormal [OF \<open>0 < q\<close>] by simp
      then show False using False by simp
    qed
    have "2 powi binade q \<le> q" by (rule binade_normal(2) [OF n])
    then have "2 powi binade q < (2::rat) powi 1024" using small rq by simp
    then have "binade q < 1024" by (intro powi_less_imp_less [of 2]) auto
    then have b: "binade q = 1023" using False by simp
    define M where "M = rne (q / ulp q)"
    have qM: "q = of_int M * 2 ^ 971"
      using double_grid [OF \<open>0 < q\<close> d] by (simp add: b M_def)
    have "of_int M * 2 ^ 971 < (2::rat) ^ 53 * 2 ^ 971" using small rq qM by simp
    then have "(of_int M :: rat) < 2 ^ 53" by simp
    then have "(of_int M :: rat) < of_int (2 ^ 53)" by simp
    then have "M < 2 ^ 53" by (simp only: of_int_less_iff)
    then have "M \<le> 2 ^ 53 - 1" by simp
    then have "(of_int M :: rat) \<le> of_int (2 ^ 53 - 1)" by (simp only: of_int_le_iff)
    then have "of_int M * 2 ^ 971 \<le> (of_int (2 ^ 53 - 1) :: rat) * 2 ^ 971"
      by (intro mult_right_mono) auto
    then show ?thesis using qM by simp
  qed
qed

subsection \<open>The integer square root\<close>

lemma isqrt_step:
  fixes r' a n :: int
  assumes ih: "0 \<le> r'" "r' * r' \<le> n div 4" "n div 4 < (r' + 1) * (r' + 1)"
  defines "res \<equiv> (if (2 * r' + 1) * (2 * r' + 1) \<le> n then 2 * r' + 1 else 2 * r')"
  shows "0 \<le> res \<and> res * res \<le> n \<and> n < (res + 1) * (res + 1)"
proof -
  define a where "a = r' * r'"
  define d where "d = n div 4"
  have d: "4 * d \<le> n" "n < 4 * d + 4" by (simp_all add: d_def)
  have e1: "(r' + 1) * (r' + 1) = a + 2 * r' + 1" by (simp add: a_def algebra_simps)
  have e2: "(2 * r' + 1) * (2 * r' + 1) = 4 * a + 4 * r' + 1" by (simp add: a_def algebra_simps)
  have e3: "(2 * r' + 1 + 1) * (2 * r' + 1 + 1) = 4 * a + 8 * r' + 4" by (simp add: a_def algebra_simps)
  have e4: "(2 * r') * (2 * r') = 4 * a" by (simp add: a_def algebra_simps)
  have ih': "a \<le> d" "d < a + 2 * r' + 1"
    using ih e1 by (simp_all add: a_def d_def)
  show ?thesis
  proof (cases "(2 * r' + 1) * (2 * r' + 1) \<le> n")
    case True
    then have res: "res = 2 * r' + 1" by (simp add: res_def)
    have g1: "0 \<le> 2 * r' + 1" using ih(1) by linarith
    have g3: "n < (2 * r' + 1 + 1) * (2 * r' + 1 + 1)" unfolding e3 using ih' d by linarith
    show ?thesis unfolding res by (intro conjI g1 True g3)
  next
    case False
    then have res: "res = 2 * r'" by (simp add: res_def)
    have g1: "0 \<le> 2 * r'" using ih(1) by linarith
    have g2: "(2 * r') * (2 * r') \<le> n" unfolding e4 using ih' d by linarith
    have g3: "n < (2 * r' + 1) * (2 * r' + 1)" using False by simp
    show ?thesis unfolding res by (intro conjI g1 g2 g3)
  qed
qed

lemma isqrt_correct: "0 \<le> n \<Longrightarrow> 0 \<le> isqrt n \<and> isqrt n * isqrt n \<le> n \<and> n < (isqrt n + 1) * (isqrt n + 1)"
proof (induction n rule: isqrt.induct)
  case (1 n)
  show ?case
  proof (cases "n \<le> 0")
    case True
    with 1 have "n = 0" by simp
    then show ?thesis by (simp add: isqrt.simps)
  next
    case False
    have n4: "0 \<le> n div 4" using False by simp
    have ih: "0 \<le> isqrt (n div 4) \<and> isqrt (n div 4) * isqrt (n div 4) \<le> n div 4
        \<and> n div 4 < (isqrt (n div 4) + 1) * (isqrt (n div 4) + 1)"
      using 1(1) [OF False n4] .
    have s: "isqrt n = (if (2 * isqrt (n div 4) + 1) * (2 * isqrt (n div 4) + 1) \<le> n
         then 2 * isqrt (n div 4) + 1 else 2 * isqrt (n div 4))"
      using False by (subst isqrt.simps) (simp add: Let_def)
    show ?thesis unfolding s using ih by (intro isqrt_step) auto
  qed
qed

lemma sq_less_imp_less:
  fixes a b :: int
  assumes "a * a < b * b" "0 \<le> b"
  shows "a < b"
proof (rule ccontr)
  assume "\<not> a < b"
  then have "b \<le> a" by simp
  then have "b * b \<le> a * a" using assms(2) by (intro mult_mono) auto
  with assms(1) show False by simp
qed

lemma isqrt_unique:
  assumes "0 \<le> t" "t * t \<le> n" "n < (t + 1) * (t + 1)"
  shows "isqrt n = t"
proof -
  have "0 \<le> t * t" by simp
  then have n: "0 \<le> n" using assms(2) by linarith
  define r where "r = isqrt n"
  have r: "0 \<le> r" "r * r \<le> n" "n < (r + 1) * (r + 1)"
    using isqrt_correct [OF n] by (simp_all add: r_def)
  have "r * r < (t + 1) * (t + 1)" using r(2) assms(3) by (rule le_less_trans)
  then have 1: "r < t + 1" by (rule sq_less_imp_less) (use assms(1) in simp)
  have "t * t < (r + 1) * (r + 1)" using assms(2) r(3) by (rule le_less_trans)
  then have 2: "t < r + 1" by (rule sq_less_imp_less) (use r(1) in simp)
  show ?thesis using 1 2 by (simp add: r_def)
qed

subsection \<open>Square roots\<close>

lemma sqrt_arg_facts:
  assumes q: "0 < q"
  defines "p \<equiv> 60 - ilog 2 q div 2"
  defines "t \<equiv> isqrt \<lfloor>q * 4 powi p\<rfloor>"
  shows "2 ^ 60 \<le> t" and "t < 2 ^ 61"
    and "of_int t / 2 powi p \<le> sqrt_arg q" and "sqrt_arg q < (of_int t + 1) / 2 powi p"
proof -
  define e where "e = ilog 2 q"
  define x where "x = q * 4 powi p"
  have eb: "2 powi e \<le> q" "q < 2 powi (e + 1)"
    using ilog_bounds [of 2 q] q by (simp_all add: e_def)
  have "(4::rat) = 2 ^ 2" by simp
  then have fp: "(4::rat) powi p = 2 powi (2 * p)"
    using power_int_power [of "2::rat" 2 p] by simp
  have "2 powi e * 2 powi (2 * p) \<le> q * 2 powi (2 * p)"
    using eb(1) by (intro mult_right_mono) auto
  moreover have "(2::rat) powi e * 2 powi (2 * p) = 2 powi (e + 2 * p)"
    by (subst power_int_add) auto
  ultimately have x_lo: "2 powi (e + 2 * p) \<le> x" by (simp add: x_def fp)
  have "q * 2 powi (2 * p) < 2 powi (e + 1) * 2 powi (2 * p)"
    using eb(2) by (intro mult_strict_right_mono) auto
  moreover have "(2::rat) powi (e + 1) * 2 powi (2 * p) = 2 powi (e + 1 + 2 * p)"
    by (subst power_int_add) auto
  ultimately have x_hi: "x < 2 powi (e + 1 + 2 * p)" by (simp add: x_def fp)
  have pe: "p = 60 - e div 2" by (simp add: p_def e_def)
  have r1: "120 \<le> e + 2 * p" unfolding pe by presburger
  have r2: "e + 1 + 2 * p \<le> 122" unfolding pe by presburger
  have "(2::rat) powi 120 \<le> 2 powi (e + 2 * p)" using r1 by (intro power_int_increasing) auto
  then have x120: "2 ^ 120 \<le> x" using x_lo by simp
  have "(2::rat) powi (e + 1 + 2 * p) \<le> 2 powi 122" using r2 by (intro power_int_increasing) auto
  then have x122: "x < 2 ^ 122" using x_hi by simp
  have f120: "2 ^ 120 \<le> \<lfloor>x\<rfloor>" using x120 by (simp add: le_floor_iff)
  have f122: "\<lfloor>x\<rfloor> < 2 ^ 122" using x122 by (simp add: floor_less_iff)
  have tt: "t = isqrt \<lfloor>x\<rfloor>" by (simp add: t_def x_def)
  have "(0::int) \<le> 2 ^ 120" by simp
  then have "0 \<le> \<lfloor>x\<rfloor>" using f120 by (rule order_trans)
  from isqrt_correct [OF this]
  have t: "0 \<le> t" "t * t \<le> \<lfloor>x\<rfloor>" "\<lfloor>x\<rfloor> < (t + 1) * (t + 1)" by (simp_all add: tt)
  have "(2 ^ 60) * (2 ^ 60) \<le> \<lfloor>x\<rfloor>" using f120 by simp
  then have "(2 ^ 60) * (2 ^ 60) < (t + 1) * (t + 1)" using t(3) by (rule le_less_trans)
  then have "2 ^ 60 < t + 1" by (rule sq_less_imp_less) (use t(1) in simp)
  then show t60: "2 ^ 60 \<le> t" by simp
  have "\<lfloor>x\<rfloor> < (2 ^ 61) * (2 ^ 61)" using f122 by simp
  with t(2) have "t * t < (2 ^ 61) * (2 ^ 61)" by (rule le_less_trans)
  then show "t < 2 ^ 61" by (rule sq_less_imp_less) simp
  have sa: "sqrt_arg q = (if of_int (t * t) = x then of_int t / 2 powi p
                          else (of_int t + 1 / 2) / 2 powi p)"
    by (simp add: sqrt_arg_def Let_def p_def t_def x_def)
  have pp: "0 < (2::rat) powi p" by simp
  have "(of_int t :: rat) \<le> of_int t + 1 / 2" by simp
  then have "of_int t / 2 powi p \<le> (of_int t + 1 / 2) / (2::rat) powi p"
    using pp by (intro divide_right_mono) auto
  then show "of_int t / 2 powi p \<le> sqrt_arg q" by (simp add: sa)
  have "(of_int t :: rat) + 1 / 2 < of_int t + 1" by simp
  then have 1: "(of_int t + 1 / 2) / 2 powi p < (of_int t + 1) / (2::rat) powi p"
    using pp by (intro divide_strict_right_mono) auto
  have "(of_int t :: rat) < of_int t + 1" by simp
  then have 2: "of_int t / 2 powi p < (of_int t + 1) / (2::rat) powi p"
    using pp by (intro divide_strict_right_mono) auto
  show "sqrt_arg q < (of_int t + 1) / 2 powi p" using 1 2 by (simp add: sa)
qed

lemma sqrt_arg_pos:
  assumes q: "0 < q"
  shows "0 < sqrt_arg q"
proof -
  define p where "p = 60 - ilog 2 q div 2"
  define t where "t = isqrt \<lfloor>q * 4 powi p\<rfloor>"
  from sqrt_arg_facts [OF q]
  have t: "2 ^ 60 \<le> t" and lo: "of_int t / 2 powi p \<le> sqrt_arg q"
    by (simp_all add: p_def t_def)
  have "0 < t" using t by (simp add: less_le_trans [of 0 "2 ^ 60"])
  then have "0 < (of_int t :: rat) / 2 powi p" by simp
  then show ?thesis using lo by linarith
qed

lemma sqrt_arg_ge_1:
  assumes q: "1 \<le> q"
  shows "1 \<le> sqrt_arg q"
proof -
  have q0: "0 < q" using q by simp
  define p where "p = 60 - ilog 2 q div 2"
  define t where "t = isqrt \<lfloor>q * 4 powi p\<rfloor>"
  from sqrt_arg_facts [OF q0]
  have t: "2 ^ 60 \<le> t" and lo: "of_int t / 2 powi p \<le> sqrt_arg q"
    by (simp_all add: p_def t_def)
  have "(2::rat) powi 0 \<le> q" using q by simp
  then have "0 \<le> ilog 2 q" using ilog_ge [of 2 0 q] by simp
  then have "0 \<le> ilog 2 q div 2" by simp
  then have "p \<le> 60" by (simp add: p_def)
  then have "(2::rat) powi p \<le> 2 powi 60" by (intro power_int_increasing) auto
  also have "\<dots> = of_int (2 ^ 60)" by simp
  also have "\<dots> \<le> of_int t" using t by (simp only: of_int_le_iff)
  finally have "1 \<le> (of_int t :: rat) / 2 powi p" by (simp add: le_divide_eq)
  then show ?thesis using lo by linarith
qed

lemma sqrt_arg_less:
  assumes q: "0 < q" and big: "q < 2 powi 1024"
  shows "sqrt_arg q < 2 ^ 512"
proof -
  define p where "p = 60 - ilog 2 q div 2"
  define t where "t = isqrt \<lfloor>q * 4 powi p\<rfloor>"
  from sqrt_arg_facts [OF q]
  have t: "t < 2 ^ 61" and hi: "sqrt_arg q < (of_int t + 1) / 2 powi p"
    by (simp_all add: p_def t_def)
  have "ilog 2 q < 1024" using ilog_less [of 2 q 1024] q big by simp
  then have "ilog 2 q div 2 \<le> 511" by linarith
  then have p: "- 451 \<le> p" by (simp add: p_def)
  have "t + 1 \<le> 2 ^ 61" using t by simp
  then have "(of_int (t + 1) :: rat) \<le> of_int (2 ^ 61)" by (simp only: of_int_le_iff)
  then have "(of_int t + 1 :: rat) \<le> 2 powi 61" by simp
  then have "(of_int t + 1) / 2 powi p \<le> 2 powi 61 / (2::rat) powi p"
    by (intro divide_right_mono) auto
  also have "\<dots> = 2 powi (61 - p)" by (subst power_int_diff) auto
  also have "\<dots> \<le> 2 powi 512" using p by (intro power_int_increasing) auto
  finally show ?thesis using hi by simp
qed

section \<open>Properties of the conversions\<close>

subsection \<open>Digits\<close>

lemma digit_char_props:
  assumes "0 \<le> d" "d \<le> 9"
  shows "isDigit (digit_char d)" and "digit_val (digit_char d) = d"
proof -
  have "d = 0 \<or> d = 1 \<or> d = 2 \<or> d = 3 \<or> d = 4 \<or> d = 5 \<or> d = 6 \<or> d = 7 \<or> d = 8 \<or> d = 9"
    using assms by presburger
  then show "isDigit (digit_char d)" and "digit_val (digit_char d) = d"
    by (auto simp: isDigit_def digit_val_def digit_char_def)
qed

lemma digits_val_snoc: "digits_val (xs @ [c]) = 10 * digits_val xs + digit_val c"
  by (simp add: digits_val_def)

lemma digits_val_Nil [simp]: "digits_val [] = 0"
  by (simp add: digits_val_def)

lemma digits_val_append:
  "digits_val (xs @ ys) = digits_val xs * 10 ^ length ys + digits_val ys"
proof (induction ys rule: rev_induct)
  case Nil
  show ?case by simp
next
  case (snoc c zs)
  have "digits_val (xs @ zs @ [c]) = 10 * digits_val (xs @ zs) + digit_val c"
    using digits_val_snoc [of "xs @ zs" c] by simp
  then show ?case by (simp add: snoc.IH digits_val_snoc algebra_simps)
qed

lemma isDigit_0 [simp]: "isDigit CHR ''0''"
  by (simp add: isDigit_def)

lemma digit_val_0 [simp]: "digit_val CHR ''0'' = 0"
  by (simp add: digit_val_def)

lemma digits_val_zeros [simp]: "digits_val (replicate z CHR ''0'') = 0"
proof (induction z)
  case 0
  show ?case by simp
next
  case (Suc z)
  have "replicate (Suc z) CHR ''0'' = replicate z CHR ''0'' @ [CHR ''0'']"
    by (simp add: replicate_append_same)
  then show ?case using Suc by (simp only: digits_val_snoc) simp
qed

lemma digits_of_props:
  "0 \<le> n \<Longrightarrow> list_all isDigit (digits_of n) \<and> digits_val (digits_of n) = n \<and> digits_of n \<noteq> []"
proof (induction n rule: digits_of.induct)
  case (1 n)
  show ?case
  proof (cases "n < 10")
    case True
    then have d: "digits_of n = [digit_char n]" by (subst digits_of.simps) simp
    have "n \<le> 9" using True by simp
    from digit_char_props [OF 1(2) this] show ?thesis
      by (simp add: d digits_val_def)
  next
    case False
    then have d: "digits_of n = digits_of (n div 10) @ [digit_char (n mod 10)]"
      by (subst digits_of.simps) simp
    have "0 \<le> n div 10" using 1(2) by simp
    with 1(1) False
    have ih: "list_all isDigit (digits_of (n div 10))" "digits_val (digits_of (n div 10)) = n div 10"
      by simp_all
    have m: "0 \<le> n mod 10" "n mod 10 \<le> 9" by simp_all
    from digit_char_props [OF m] show ?thesis
      by (simp add: d ih digits_val_snoc)
  qed
qed

lemma length_digits_of:
  "1 \<le> k \<Longrightarrow> 10 ^ (k - 1) \<le> n \<Longrightarrow> n < 10 ^ k \<Longrightarrow> length (digits_of n) = k"
proof (induction k arbitrary: n)
  case 0
  then show ?case by simp
next
  case (Suc k)
  show ?case
  proof (cases "k = 0")
    case True
    then have "n < 10" using Suc.prems by simp
    then have "digits_of n = [digit_char n]" by (subst digits_of.simps) simp
    then show ?thesis using True by simp
  next
    case False
    then have k1: "1 \<le> k" by simp
    have "(10::int) ^ 1 \<le> 10 ^ k" using k1 by (intro power_increasing) auto
    then have n10: "\<not> n < 10" using Suc.prems by simp
    then have d: "digits_of n = digits_of (n div 10) @ [digit_char (n mod 10)]"
      by (subst digits_of.simps) simp
    have e: "(10::int) ^ k = 10 * 10 ^ (k - 1)" using k1 by (cases k) auto
    have lo: "10 ^ (k - 1) \<le> n div 10" using Suc.prems(2) e by simp
    have hi: "n div 10 < 10 ^ k" using Suc.prems(3) by simp
    from Suc.IH [OF k1 lo hi] show ?thesis by (simp add: d)
  qed
qed

subsection \<open>Reading decimal literals\<close>

lemma span_digits:
  assumes "list_all isDigit xs" "ys = [] \<or> \<not> isDigit (hd ys)"
  shows "takeWhile isDigit (xs @ ys) = xs" and "dropWhile isDigit (xs @ ys) = ys"
proof -
  have x: "\<And>x. x \<in> set xs \<Longrightarrow> isDigit x" using assms(1) by (simp add: list_all_iff)
  have t: "takeWhile isDigit ys = []" using assms(2) by (cases ys) auto
  have d: "dropWhile isDigit ys = ys" using assms(2) by (cases ys) auto
  show "takeWhile isDigit (xs @ ys) = xs" using x t by (simp add: takeWhile_append2)
  show "dropWhile isDigit (xs @ ys) = ys" using x d by (simp add: dropWhile_append2)
qed

lemma not_digit_chars [simp]:
  "\<not> isDigit CHR ''.''" "\<not> isDigit CHR ''e''" "\<not> isDigit CHR ''+''" "\<not> isDigit CHR ''-''"
  by (simp_all add: isDigit_def)

lemma parse_exponent_ex:
  assumes "ex_ok ex"
  shows "parse_exponent (case ex of None \<Rightarrow> []
           | Some (neg, ds) \<Rightarrow> CHR ''e'' # (if neg then CHR ''-'' else CHR ''+'') # ds) = Some (ex_val ex)"
  using assms by (auto simp: parse_exponent_def ex_val_def ex_ok_def split: option.splits)

lemma parse_decimal_fmt:
  assumes ip: "ip \<noteq> []" "list_all isDigit ip" and fp: "list_all isDigit fp" and ex: "ex_ok ex"
  shows "parse_decimal (fmt ip fp ex)
           = Some (of_int (digits_val (ip @ fp)) * 10 powi (ex_val ex - int (length fp)))"
proof -
  define E where "E = (case ex of None \<Rightarrow> []
           | Some (neg, ds) \<Rightarrow> CHR ''e'' # (if neg then CHR ''-'' else CHR ''+'') # ds)"
  have pe: "parse_exponent E = Some (ex_val ex)" unfolding E_def by (rule parse_exponent_ex [OF ex])
  have Ehd: "E = [] \<or> \<not> isDigit (hd E)" by (auto simp: E_def split: option.splits)
  have Edot: "E = [] \<or> hd E \<noteq> CHR ''.''" by (auto simp: E_def split: option.splits)
  show ?thesis
  proof (cases "fp = []")
    case True
    have f: "fmt ip fp ex = ip @ E" by (simp add: fmt_def True E_def)
    from span_digits [OF ip(2) Ehd]
    have s: "takeWhile isDigit (ip @ E) = ip" "dropWhile isDigit (ip @ E) = E" .
    have v: "digits_val (ip @ fp) = digits_val ip" "length fp = 0" by (simp_all add: True)
    show ?thesis unfolding f parse_decimal_def Let_def s v
      using Edot ip(1) pe by auto
  next
    case False
    have f: "fmt ip fp ex = ip @ (CHR ''.'' # fp @ E)" by (simp add: fmt_def False E_def)
    have "(CHR ''.'' # fp @ E) = [] \<or> \<not> isDigit (hd (CHR ''.'' # fp @ E))" by simp
    from span_digits [OF ip(2) this]
    have s: "takeWhile isDigit (ip @ (CHR ''.'' # fp @ E)) = ip"
      "dropWhile isDigit (ip @ (CHR ''.'' # fp @ E)) = CHR ''.'' # fp @ E" .
    from span_digits [OF fp Ehd]
    have s2: "takeWhile isDigit (fp @ E) = fp" "dropWhile isDigit (fp @ E) = E" .
    show ?thesis unfolding f parse_decimal_def Let_def s
      using ip(1) pe by (simp add: s2)
  qed
qed

lemma fmt_chars:
  assumes "list_all isDigit ip" "list_all isDigit fp" "ex_ok ex"
  shows "\<forall>c \<in> set (fmt ip fp ex). isDigit c \<or> c = CHR ''.'' \<or> c = CHR ''e'' \<or> c = CHR ''+'' \<or> c = CHR ''-''"
  using assms by (auto simp: fmt_def ex_ok_def list_all_iff split: option.splits if_splits)

lemma digit_not_special:
  assumes "isDigit c \<or> c = CHR ''.'' \<or> c = CHR ''e'' \<or> c = CHR ''+'' \<or> c = CHR ''-''"
  shows "\<not> isWhiteSpace c" and "c \<noteq> CHR ''x''" and "c \<noteq> CHR ''X''" and "c \<noteq> CHR ''o''"
    and "c \<noteq> CHR ''O''" and "c \<noteq> CHR ''b''" and "c \<noteq> CHR ''B''" and "c \<noteq> CHR ''I''"
  using assms by (auto simp: isDigit_def isWhiteSpace_def)

lemma dropWhile_hd: "xs \<noteq> [] \<Longrightarrow> \<not> P (hd xs) \<Longrightarrow> dropWhile P xs = xs"
  by (cases xs) auto

lemma trim_id:
  assumes "s \<noteq> []" "\<not> isWhiteSpace (hd s)" "\<not> isWhiteSpace (last s)"
  shows "trim s = s"
proof -
  have 1: "dropWhile isWhiteSpace s = s" using assms(1,2) by (rule dropWhile_hd)
  have "rev s \<noteq> []" "\<not> isWhiteSpace (hd (rev s))" using assms(1,3) by (simp_all add: hd_rev)
  then have 2: "dropWhile isWhiteSpace (rev s) = rev s" by (rule dropWhile_hd)
  show ?thesis by (simp add: trim_def 1 2)
qed

lemma strToNumber_fmt:
  assumes ip: "ip \<noteq> []" "list_all isDigit ip" and fp: "list_all isDigit fp" and ex: "ex_ok ex"
  shows "strToNumber (fmt ip fp ex)
           = fl (of_int (digits_val (ip @ fp)) * 10 powi (ex_val ex - int (length fp)))"
proof -
  define t where "t = fmt ip fp ex"
  have ch: "\<forall>c \<in> set t. isDigit c \<or> c = CHR ''.'' \<or> c = CHR ''e'' \<or> c = CHR ''+'' \<or> c = CHR ''-''"
    unfolding t_def by (rule fmt_chars [OF ip(2) fp ex])
  have ne: "t \<noteq> []" using ip(1) by (simp add: t_def fmt_def)
  have hdt: "hd t = hd ip" using ip(1) by (simp add: t_def fmt_def)
  have hd_digit: "isDigit (hd t)" using ip by (cases ip) (auto simp: hdt)
  have "hd t \<in> set t" "last t \<in> set t" using ne by simp_all
  with ch have "\<not> isWhiteSpace (hd t)" "\<not> isWhiteSpace (last t)"
    using digit_not_special(1) by blast+
  then have tr: "trim t = t" using ne by (intro trim_id)
  have nd: "nondecimal t = None"
  proof (cases t)
    case Nil
    then show ?thesis by (simp add: nondecimal_def)
  next
    case (Cons c0 t')
    show ?thesis
    proof (cases t')
      case Nil
      then show ?thesis using Cons by (simp add: nondecimal_def)
    next
      case (Cons c1 ds)
      then have "c1 \<in> set t" using \<open>t = c0 # t'\<close> by simp
      with ch have "isDigit c1 \<or> c1 = CHR ''.'' \<or> c1 = CHR ''e'' \<or> c1 = CHR ''+'' \<or> c1 = CHR ''-''"
        by blast
      from digit_not_special [OF this] show ?thesis
        using Cons \<open>t = c0 # t'\<close> by (simp add: nondecimal_def)
    qed
  qed
  have sg: "hd t \<noteq> CHR ''-''" "hd t \<noteq> CHR ''+''" using hd_digit by auto
  have inf: "t \<noteq> ''Infinity''"
  proof
    assume "t = ''Infinity''"
    then have "hd t = CHR ''I''" by simp
    then show False using hd_digit by (simp add: isDigit_def)
  qed
  show ?thesis
    using parse_decimal_fmt [OF ip fp ex]
    by (simp add: strToNumber_def tr ne nd sg inf Let_def flip: t_def)
qed

subsection \<open>The shortest digits are read back as the number\<close>

lemma dec_bounds:
  assumes q: "0 < q" and k: "1 \<le> k"
  defines "sc \<equiv> (10::rat) powi (ilog 10 q + 1 - int k)"
  defines "lo \<equiv> \<lfloor>q / sc\<rfloor>"
  shows "10 ^ (k - 1) \<le> lo" and "lo < 10 ^ k"
proof -
  have b: "10 powi ilog 10 q \<le> q" "q < 10 powi (ilog 10 q + 1)"
    using ilog_bounds [of 10 q] q by simp_all
  have sc: "0 < sc" by (simp add: sc_def)
  have "q / sc < 10 powi (ilog 10 q + 1) / sc" using b(2) sc by (simp add: divide_strict_right_mono)
  also have "\<dots> = 10 powi ((ilog 10 q + 1) - (ilog 10 q + 1 - int k))"
    unfolding sc_def by (subst power_int_diff) auto
  also have "(ilog 10 q + 1) - (ilog 10 q + 1 - int k) = int k" by simp
  finally have "q / sc < of_int (10 ^ k)" by simp
  then show "lo < 10 ^ k" unfolding lo_def by (simp only: floor_less_iff)
  have le: "10 powi (ilog 10 q) / sc \<le> q / sc" using b(1) sc by (intro divide_right_mono) auto
  have e1: "10 powi (ilog 10 q) / sc = 10 powi (ilog 10 q - (ilog 10 q + 1 - int k))"
    unfolding sc_def by (subst power_int_diff) auto
  have e2: "ilog 10 q - (ilog 10 q + 1 - int k) = int (k - 1)" using k by simp
  have "of_int (10 ^ (k - 1)) = (10::rat) powi int (k - 1)" by simp
  also have "\<dots> = 10 powi (ilog 10 q) / sc" by (simp only: e1 e2)
  finally have "of_int (10 ^ (k - 1)) \<le> q / sc" using le by (simp only:)
  then show "10 ^ (k - 1) \<le> lo" unfolding lo_def by (simp only: le_floor_iff)
qed

lemma pick_digits_None: "pick_digits k lo n okl okh b = None \<longleftrightarrow> \<not> okl \<and> \<not> okh"
  by (simp add: pick_digits_def Let_def)

lemma pick_digits_Some:
  assumes "pick_digits k lo n okl okh b = Some (s, m)"
  shows "(s = 10 ^ (k - 1) \<and> m = n + 1 \<and> lo + 1 = 10 ^ k \<and> okh)
         \<or> (s = lo + 1 \<and> m = n \<and> lo + 1 \<noteq> 10 ^ k \<and> okh)
         \<or> (s = lo \<and> m = n \<and> okl)"
proof (cases okl)
  case True
  then show ?thesis using assms by (cases okh; cases b) (auto simp: pick_digits_def Let_def split: if_splits)
next
  case False
  then show ?thesis using assms by (cases okh) (auto simp: pick_digits_def Let_def split: if_splits)
qed

lemma digits_at_unfold:
  fixes k :: nat and q :: rat
  defines "n0 \<equiv> ilog 10 q + 1"
  defines "sc \<equiv> (10::rat) powi (n0 - int k)"
  defines "lo \<equiv> \<lfloor>q / sc\<rfloor>"
  defines "okl \<equiv> fl (of_int lo * sc) = Fin q"
  defines "okh \<equiv> fl (of_int (lo + 1) * sc) = Fin q"
  shows "digits_at k q = None \<longleftrightarrow> \<not> okl \<and> \<not> okh"
    and "digits_at k q = Some (s, n) \<Longrightarrow>
           (s = 10 ^ (k - 1) \<and> n = n0 + 1 \<and> lo + 1 = 10 ^ k \<and> okh)
         \<or> (s = lo + 1 \<and> n = n0 \<and> lo + 1 \<noteq> 10 ^ k \<and> okh)
         \<or> (s = lo \<and> n = n0 \<and> okl)"
proof -
  have D: "digits_at k q = pick_digits k lo n0 okl okh
      (of_int (lo + 1) * sc - q < q - of_int lo * sc
       \<or> (of_int (lo + 1) * sc - q = q - of_int lo * sc \<and> odd lo))"
    unfolding digits_at_def Let_def n0_def sc_def lo_def okl_def okh_def ..
  show "digits_at k q = None \<longleftrightarrow> \<not> okl \<and> \<not> okh"
    unfolding D by (rule pick_digits_None)
  show "digits_at k q = Some (s, n) \<Longrightarrow>
           (s = 10 ^ (k - 1) \<and> n = n0 + 1 \<and> lo + 1 = 10 ^ k \<and> okh)
         \<or> (s = lo + 1 \<and> n = n0 \<and> lo + 1 \<noteq> 10 ^ k \<and> okh)
         \<or> (s = lo \<and> n = n0 \<and> okl)"
    unfolding D by (rule pick_digits_Some)
qed

lemma digits_at_sound:
  assumes q: "0 < q" and k: "1 \<le> k" and d: "digits_at k q = Some (s, n)"
  shows "10 ^ (k - 1) \<le> s \<and> s < 10 ^ k \<and> fl (of_int s * 10 powi (n - int k)) = Fin q"
proof -
  define n0 where "n0 = ilog 10 q + 1"
  define sc :: rat where "sc = 10 powi (n0 - int k)"
  define lo where "lo = \<lfloor>q / sc\<rfloor>"
  have lb: "10 ^ (k - 1) \<le> lo" "lo < 10 ^ k"
    using dec_bounds [OF q k] by (simp_all add: lo_def sc_def n0_def)
  have kk: "(10::int) ^ (k - 1) < 10 ^ k" using k by (intro power_strict_increasing) auto
  from digits_at_unfold(2) [OF d]
  consider (roll) "s = 10 ^ (k - 1)" "n = n0 + 1" "lo + 1 = 10 ^ k" "fl (of_int (lo + 1) * sc) = Fin q"
    | (hi) "s = lo + 1" "n = n0" "lo + 1 \<noteq> 10 ^ k" "fl (of_int (lo + 1) * sc) = Fin q"
    | (lo) "s = lo" "n = n0" "fl (of_int lo * sc) = Fin q"
    unfolding n0_def sc_def lo_def by blast
  then show ?thesis
  proof cases
    case roll
    have "(10::rat) powi (n0 + 1 - int k) = 10 powi (n0 - int k) * 10"
      using power_int_add_1 [of "10::rat" "n0 - int k"] by (simp add: algebra_simps)
    moreover have "(10::rat) ^ k = 10 ^ (k - 1) * 10" using k by (cases k) auto
    ultimately have "of_int s * 10 powi (n - int k) = of_int (lo + 1) * sc"
      unfolding roll(1,2) roll(3) sc_def by simp
    then show ?thesis using roll kk by simp
  next
    case hi
    then show ?thesis using lb by (simp add: sc_def)
  next
    case lo
    then show ?thesis using lb by (simp add: sc_def)
  qed
qed

lemma digits_at_exact:
  assumes q: "0 < q" and d: "fl q = Fin q"
    and k: "int k = ilog 10 q + 1 + int j" and i: "q * 10 ^ j \<in> \<int>"
  shows "digits_at k q \<noteq> None"
proof -
  define sc :: rat where "sc = 10 powi (ilog 10 q + 1 - int k)"
  have "ilog 10 q + 1 - int k = - int j" using k by simp
  then have sc: "sc = 1 / 10 ^ j" by (simp add: sc_def power_int_minus_divide)
  then have qs: "q / sc = q * 10 ^ j" by simp
  obtain z where z: "q * 10 ^ j = of_int z" using i by (rule Ints_cases)
  have fz: "\<lfloor>q / sc\<rfloor> = z" by (simp add: qs z)
  have "of_int z * sc = (q * 10 ^ j) * (1 / 10 ^ j)" by (simp only: z sc)
  also have "\<dots> = q" by simp
  finally have "of_int \<lfloor>q / sc\<rfloor> * sc = q" by (simp only: fz)
  then have "fl (of_int \<lfloor>q / sc\<rfloor> * sc) = Fin q" using d by simp
  then show ?thesis using digits_at_unfold(1) [of k q] by (simp add: sc_def)
qed

lemma find_digits_sound:
  assumes "digits_at (k + i) q \<noteq> None" "i \<le> f"
  shows "\<exists>k' s n. find_digits f k q = (k', s, n) \<and> k \<le> k' \<and> digits_at k' q = Some (s, n)"
  using assms
proof (induction f arbitrary: k i)
  case 0
  then obtain s n where "digits_at k q = Some (s, n)" by auto
  then show ?case by simp
next
  case (Suc f)
  show ?case
  proof (cases "digits_at k q")
    case (Some sn)
    then show ?thesis by (cases sn) simp
  next
    case None
    then have "i \<noteq> 0" using Suc.prems(1) by (cases i) auto
    then obtain i' where i': "i = Suc i'" by (cases i) auto
    have "digits_at (Suc k + i') q \<noteq> None" "i' \<le> f" using Suc.prems i' by simp_all
    from Suc.IH [OF this] obtain k' s n where
      "find_digits f (Suc k) q = (k', s, n)" "Suc k \<le> k'" "digits_at k' q = Some (s, n)" by blast
    then show ?thesis using None by auto
  qed
qed

lemma double_scaled_int:
  assumes q: "0 < q" and d: "fl q = Fin q"
  defines "j \<equiv> nat (max 0 (52 - binade q))"
  shows "q * 2 ^ j \<in> \<int>"
proof -
  define M where "M = rne (q / ulp q)"
  have qM: "q = of_int M * 2 powi (binade q - 52)" unfolding M_def by (rule double_grid [OF q d])
  show ?thesis
  proof (cases "52 \<le> binade q")
    case True
    then have "j = 0" by (simp add: j_def)
    moreover have "(2::rat) powi (binade q - 52) = 2 ^ nat (binade q - 52)"
      using True by (simp add: power_int_nonneg_exp)
    ultimately have "q * 2 ^ j = of_int (M * 2 ^ nat (binade q - 52))" using qM by simp
    then show ?thesis by (metis Ints_of_int)
  next
    case False
    then have j: "int j = 52 - binade q" by (simp add: j_def)
    have "(2::rat) powi (binade q - 52) * 2 ^ j = 2 powi (binade q - 52) * 2 powi (int j)" by simp
    also have "\<dots> = 2 powi ((binade q - 52) + int j)" by (subst power_int_add) auto
    also have "\<dots> = 1" by (simp add: j)
    finally have "q * 2 ^ j = of_int M" using qM by (metis mult.assoc mult.right_neutral)
    then show ?thesis by (metis Ints_of_int)
  qed
qed

lemma shortest_digits_at:
  assumes q: "0 < q" and d: "fl q = Fin q"
  shows "\<exists>k s n. shortest_digits q = (k, s, n) \<and> 1 \<le> k \<and> digits_at k q = Some (s, n)"
proof -
  define j where "j = nat (max 0 (52 - binade q))"
  have i2: "q * 2 ^ j \<in> \<int>" unfolding j_def by (rule double_scaled_int [OF q d])
  have eq10: "q * 10 ^ j = (q * 2 ^ j) * 5 ^ j"
  proof -
    have "(10::rat) ^ j = (2 * 5) ^ j" by simp
    also have "\<dots> = 2 ^ j * 5 ^ j" by (rule power_mult_distrib)
    finally show ?thesis by (simp only: mult.assoc)
  qed
  have "(q * 2 ^ j) * 5 ^ j \<in> \<int>" by (intro Ints_mult i2 Ints_power Ints_numeral)
  then have i10: "q * 10 ^ j \<in> \<int>" by (simp only: eq10)
  obtain z where z: "q * 2 ^ j = of_int z" using i2 by (rule Ints_cases)
  have "0 < q * 2 ^ j" using q by simp
  then have "0 < z" using z by simp
  then have "1 \<le> z" by simp
  then have "(1::rat) \<le> of_int z" by simp
  then have "1 \<le> q * 2 ^ j" using z by simp
  also have "q * 2 ^ j \<le> q * 10 ^ j" using q by (intro mult_left_mono power_mono) auto
  finally have "1 / 10 ^ j \<le> q" by (simp add: divide_le_eq)
  then have "10 powi (- int j) \<le> q" by (simp add: power_int_minus_divide)
  then have il: "- int j \<le> ilog 10 q" using ilog_ge [of 10 "- int j" q] by simp
  define f where "f = nat (ilog 10 q + int j)"
  have ff: "shortest_digits q = find_digits f 1 q"
    by (simp add: shortest_digits_def f_def j_def)
  have "int (1 + f) = ilog 10 q + 1 + int j" using il by (simp add: f_def)
  from digits_at_exact [OF q d this i10] have "digits_at (1 + f) q \<noteq> None" .
  from find_digits_sound [OF this order_refl] obtain k s n where
    r: "find_digits f 1 q = (k, s, n)" "1 \<le> k" "digits_at k q = Some (s, n)" by blast
  then show ?thesis using ff by simp
qed

lemma shortest_digits_sound:
  assumes q: "0 < q" and d: "fl q = Fin q"
  shows "\<exists>k s n. shortest_digits q = (k, s, n) \<and> 1 \<le> k \<and> 10 ^ (k - 1) \<le> s \<and> s < 10 ^ k
           \<and> fl (of_int s * 10 powi (n - int k)) = Fin q"
proof -
  from shortest_digits_at [OF q d] obtain k s n where
    r: "shortest_digits q = (k, s, n)" "1 \<le> k" "digits_at k q = Some (s, n)" by blast
  from digits_at_sound [OF q r(2,3)] r(1,2) show ?thesis by simp
qed

lemma digits_at_exp:
  assumes d: "digits_at k q = Some (s, n)"
  shows "n = ilog 10 q + 1 \<or> (n = ilog 10 q + 2 \<and> fl (10 powi (ilog 10 q + 1)) = Fin q)"
proof -
  define n0 where "n0 = ilog 10 q + 1"
  define sc :: rat where "sc = 10 powi (n0 - int k)"
  define lo where "lo = \<lfloor>q / sc\<rfloor>"
  from digits_at_unfold(2) [OF d]
  consider (roll) "n = n0 + 1" "lo + 1 = 10 ^ k" "fl (of_int (lo + 1) * sc) = Fin q"
    | (same) "n = n0"
    unfolding n0_def sc_def lo_def by blast
  then show ?thesis
  proof cases
    case roll
    have "of_int (lo + 1) * sc = (10::rat) powi (int k) * 10 powi (n0 - int k)"
      by (simp only: roll(2) sc_def) simp
    also have "\<dots> = 10 powi (int k + (n0 - int k))" by (subst power_int_add) auto
    also have "int k + (n0 - int k) = n0" by simp
    finally have "fl (10 powi n0) = Fin q" using roll(3) by simp
    then show ?thesis using roll(1) by (simp add: n0_def)
  next
    case same
    then show ?thesis by (simp add: n0_def)
  qed
qed

lemma find_digits_first: "digits_at k q = Some (s, n) \<Longrightarrow> find_digits f k q = (k, s, n)"
  by (cases f) simp_all

lemma pos_to_string_length:
  assumes lo: "10 ^ 15 \<le> q" and hi: "q < 10 ^ 21" and d: "fl q = Fin q"
  shows "16 \<le> length (pos_to_string q)"
proof -
  have q: "0 < q" using lo by (simp add: less_le_trans [of 0 "10 ^ 15"])
  from shortest_digits_at [OF q d] obtain k s n where
    r: "shortest_digits q = (k, s, n)" "1 \<le> k" "digits_at k q = Some (s, n)" by blast
  from digits_at_sound [OF q r(2,3)] have s: "10 ^ (k - 1) \<le> s" "s < 10 ^ k" by simp_all
  have len: "length (digits_of s) = k" by (rule length_digits_of [OF r(2) s])
  have "(10::rat) powi 15 \<le> q" using lo by simp
  then have i15: "15 \<le> ilog 10 q" using ilog_ge [of 10 15 q] by simp
  have "q < (10::rat) powi 21" using hi by simp
  then have i21: "ilog 10 q < 21" using ilog_less [of 10 q 21] q by simp
  have f21: "fl (10 ^ 21) = Fin (10 ^ 21)"
  proof -
    have "fl (of_int 476837158203125 * 2 powi 21) = Fin (of_int 476837158203125 * 2 powi 21)"
      by (rule fl_exact) simp_all
    then show ?thesis by simp
  qed
  have n: "16 \<le> n \<and> n \<le> 21"
  proof -
    from digits_at_exp [OF r(3)]
    consider "n = ilog 10 q + 1" | "n = ilog 10 q + 2" "fl (10 powi (ilog 10 q + 1)) = Fin q" by blast
    then show ?thesis
    proof cases
      case 1
      then show ?thesis using i15 i21 by simp
    next
      case 2
      have "ilog 10 q \<noteq> 20"
      proof
        assume "ilog 10 q = 20"
        then have "fl (10 ^ 21) = Fin q" using 2(2) by simp
        then have "q = 10 ^ 21" using f21 by simp
        then show False using hi by simp
      qed
      then show ?thesis using 2(1) i15 i21 by simp
    qed
  qed
  show ?thesis
  proof (cases "int k \<le> n")
    case True
    then have "pos_to_string q = digits_of s @ replicate (nat (n - int k)) CHR ''0''"
      using n by (simp add: pos_to_string_def r(1) Let_def)
    then have "length (pos_to_string q) = k + nat (n - int k)" using len by simp
    then show ?thesis using n True by linarith
  next
    case False
    then have "pos_to_string q = take (nat n) (digits_of s) @ ''.'' @ drop (nat n) (digits_of s)"
      using n by (simp add: pos_to_string_def r(1) Let_def)
    then have "length (pos_to_string q) = k + 1" using len by simp
    then show ?thesis using n False by linarith
  qed
qed

lemma fmt_pad: "replicate z CHR ''0'' @ fmt ip fp ex = fmt (replicate z CHR ''0'' @ ip) fp ex"
  by (simp add: fmt_def)

lemma digits_val_pad [simp]: "digits_val (replicate z CHR ''0'' @ xs) = digits_val xs"
  by (simp add: digits_val_append)

lemma list_all_zeros [simp]: "list_all isDigit (replicate z CHR ''0'')"
  by (simp add: list_all_iff)

lemma pos_to_string_fmt:
  assumes q: "0 < q" and d: "fl q = Fin q"
  shows "\<exists>ip fp ex. pos_to_string q = fmt ip fp ex \<and> ip \<noteq> [] \<and> list_all isDigit ip
           \<and> list_all isDigit fp \<and> ex_ok ex
           \<and> fl (of_int (digits_val (ip @ fp)) * 10 powi (ex_val ex - int (length fp))) = Fin q"
proof -
  from shortest_digits_sound [OF q d] obtain k s n where
    sd: "shortest_digits q = (k, s, n)" and k: "1 \<le> k" and s: "10 ^ (k - 1) \<le> s" "s < 10 ^ k"
    and v: "fl (of_int s * 10 powi (n - int k)) = Fin q" by blast
  define ds where "ds = digits_of s"
  have "(0::int) \<le> 10 ^ (k - 1)" by simp
  then have s0: "0 \<le> s" using s(1) by linarith
  from digits_of_props [OF s0]
  have dsp: "list_all isDigit ds" "digits_val ds = s" "ds \<noteq> []" by (simp_all add: ds_def)
  have len: "length ds = k" unfolding ds_def by (rule length_digits_of [OF k s])
  define e where "e = n - 1"
  define es where "es = digits_of \<bar>e\<bar>"
  from digits_of_props [of "\<bar>e\<bar>"]
  have esp: "list_all isDigit es" "digits_val es = \<bar>e\<bar>" "es \<noteq> []" by (simp_all add: es_def)
  define ex where "ex = Some (e < 0, es)"
  have exok: "ex_ok ex" using esp by (simp add: ex_def ex_ok_def)
  have exv: "ex_val ex = n - 1" using esp by (auto simp: ex_def ex_val_def e_def)
  have exs: "fmt ip fp ex = ip @ (if fp = [] then [] else CHR ''.'' # fp) @ ''e'' @ (if e < 0 then ''-'' else ''+'') @ es"
    for ip fp by (simp add: fmt_def ex_def)
  have none: "ex_ok None" "ex_val None = 0" by (simp_all add: ex_ok_def ex_val_def)
  have rng: "(- 5 \<le> n \<and> n \<le> 21) = True" if "- 5 \<le> n" "n \<le> 21" using that by simp
  have nrng: "(- 5 \<le> n \<and> n \<le> 21) = False" if "\<not> (- 5 \<le> n \<and> n \<le> 21)" using that by simp
  consider (F1) "- 5 \<le> n" "n \<le> 21" "int k \<le> n"
    | (F2) "- 5 \<le> n" "n \<le> 21" "n < int k" "0 < n"
    | (F3) "- 5 \<le> n" "n \<le> 21" "n < int k" "n \<le> 0"
    | (F4) "n < - 5 \<or> 21 < n" "k = 1"
    | (F5) "n < - 5 \<or> 21 < n" "k \<noteq> 1" by linarith
  then show ?thesis
  proof cases
    case F1
    define ip where "ip = ds @ replicate (nat (n - int k)) CHR ''0''"
    have p: "pos_to_string q = fmt ip [] None"
      using F1 by (simp add: pos_to_string_def sd Let_def fmt_def ip_def ds_def)
    have "digits_val ip = s * 10 ^ nat (n - int k)"
      by (simp add: ip_def digits_val_append dsp)
    moreover have "(10::rat) powi (n - int k) = 10 ^ nat (n - int k)"
      using F1 by (simp add: power_int_nonneg_exp)
    ultimately have eq: "of_int (digits_val (ip @ [])) * 10 powi (ex_val None - int (length ([]::string)))
        = of_int s * (10::rat) powi (n - int k)" by (simp add: none)
    have val: "fl (of_int (digits_val (ip @ [])) * 10 powi (ex_val None - int (length ([]::string)))) = Fin q"
      using v by (simp only: eq)
    have "ip \<noteq> []" "list_all isDigit ip" "list_all isDigit ([]::string)"
      using dsp by (simp_all add: ip_def)
    then show ?thesis using p none(1) val by blast
  next
    case F2
    define ip where "ip = take (nat n) ds"
    define fp where "fp = drop (nat n) ds"
    have fpne: "fp \<noteq> []" using F2 len by (simp add: fp_def)
    have ipne: "ip \<noteq> []" using F2 dsp by (simp add: ip_def)
    have p: "pos_to_string q = fmt ip fp None"
      using F2 fpne by (simp add: pos_to_string_def sd Let_def fmt_def ip_def fp_def ds_def)
    have dg: "list_all isDigit ip" "list_all isDigit fp"
      using dsp(1) by (auto simp: ip_def fp_def list_all_iff dest: in_set_takeD in_set_dropD)
    have "int (length fp) = int k - n" using F2 len by (simp add: fp_def)
    then have eq: "of_int (digits_val (ip @ fp)) * 10 powi (ex_val None - int (length fp))
        = of_int s * (10::rat) powi (n - int k)" by (simp add: none ip_def fp_def dsp)
    have val: "fl (of_int (digits_val (ip @ fp)) * 10 powi (ex_val None - int (length fp))) = Fin q"
      using v by (simp only: eq)
    show ?thesis using p ipne dg none(1) val by blast
  next
    case F3
    define fp where "fp = replicate (nat (- n)) CHR ''0'' @ ds"
    have p: "pos_to_string q = fmt ''0'' fp None"
      using F3 dsp by (simp add: pos_to_string_def sd Let_def fmt_def fp_def ds_def)
    have dg: "list_all isDigit fp" using dsp(1) by (simp add: fp_def)
    have "digits_val (''0'' @ fp) = s"
    proof -
      have "''0'' @ fp = replicate (Suc (nat (- n))) CHR ''0'' @ ds" by (simp add: fp_def)
      then show ?thesis by (simp only: digits_val_pad dsp)
    qed
    moreover have "int (length fp) = int k - n" using F3 len by (simp add: fp_def)
    ultimately have eq: "of_int (digits_val (''0'' @ fp)) * 10 powi (ex_val None - int (length fp))
        = of_int s * (10::rat) powi (n - int k)" by (simp add: none)
    have val: "fl (of_int (digits_val (''0'' @ fp)) * 10 powi (ex_val None - int (length fp))) = Fin q"
      using v by (simp only: eq)
    have "''0'' \<noteq> []" "list_all isDigit ''0''" by simp_all
    then show ?thesis using p dg none(1) val by blast
  next
    case F4
    have p: "pos_to_string q = fmt ds [] ex"
      using F4 by (auto simp: pos_to_string_def sd Let_def exs ds_def es_def e_def)
    have eq: "of_int (digits_val (ds @ [])) * 10 powi (ex_val ex - int (length ([]::string)))
        = of_int s * (10::rat) powi (n - int k)" using F4 by (simp add: exv dsp)
    have val: "fl (of_int (digits_val (ds @ [])) * 10 powi (ex_val ex - int (length ([]::string)))) = Fin q"
      using v by (simp only: eq)
    have "list_all isDigit ([]::string)" by simp
    then show ?thesis using p dsp(1,3) exok val by blast
  next
    case F5
    define ip where "ip = take 1 ds"
    define fp where "fp = drop 1 ds"
    have k2: "2 \<le> k" using F5 k by simp
    have fpne: "fp \<noteq> []" using k2 len by (simp add: fp_def)
    have ipne: "ip \<noteq> []" using dsp by (simp add: ip_def)
    have p: "pos_to_string q = fmt ip fp ex"
      using F5 fpne by (auto simp: pos_to_string_def sd Let_def exs ip_def fp_def ds_def es_def e_def)
    have dg: "list_all isDigit ip" "list_all isDigit fp"
      using dsp(1) by (auto simp: ip_def fp_def list_all_iff dest: in_set_takeD in_set_dropD)
    have "int (length fp) = int k - 1" using k2 len by (simp add: fp_def)
    then have eq: "of_int (digits_val (ip @ fp)) * 10 powi (ex_val ex - int (length fp))
        = of_int s * (10::rat) powi (n - int k)" by (simp add: exv ip_def fp_def dsp)
    have val: "fl (of_int (digits_val (ip @ fp)) * 10 powi (ex_val ex - int (length fp))) = Fin q"
      using v by (simp only: eq)
    show ?thesis using p ipne dg exok val by blast
  qed
qed

lemma padStart_zero: "padStart n ''0'' s = replicate (n - length s) CHR ''0'' @ s"
proof -
  have "concat (replicate m ''0'') = replicate m CHR ''0''" for m
    by (induction m) simp_all
  then show ?thesis by (simp add: padStart_def)
qed

lemma pad_roundtrip_pos:
  assumes q: "0 < q" and d: "fl q = Fin q"
  shows "strToNumber (replicate z CHR ''0'' @ pos_to_string q) = Fin q"
proof -
  from pos_to_string_fmt [OF q d] obtain ip fp ex where
    p: "pos_to_string q = fmt ip fp ex" "ip \<noteq> []" "list_all isDigit ip" "list_all isDigit fp" "ex_ok ex"
    and v: "fl (of_int (digits_val (ip @ fp)) * 10 powi (ex_val ex - int (length fp))) = Fin q"
    by blast
  define Z where "Z = replicate z CHR ''0''"
  have "strToNumber (Z @ fmt ip fp ex)
      = fl (of_int (digits_val ((Z @ ip) @ fp)) * 10 powi (ex_val ex - int (length fp)))"
    unfolding Z_def fmt_pad using p by (intro strToNumber_fmt) simp_all
  also have "digits_val ((Z @ ip) @ fp) = digits_val (ip @ fp)" by (simp add: Z_def)
  finally show ?thesis using v by (simp add: p(1) Z_def)
qed

lemma strToNumber_zeros:
  assumes "0 < m"
  shows "strToNumber (replicate m CHR ''0'') = Fin 0"
proof -
  have "replicate m CHR ''0'' = fmt (replicate m CHR ''0'') [] None" by (simp add: fmt_def)
  moreover have "strToNumber (fmt (replicate m CHR ''0'') [] None) = Fin 0"
    using assms by (subst strToNumber_fmt) (simp_all add: ex_ok_def ex_val_def)
  ultimately show ?thesis by simp
qed

lemma pad_roundtrip:
  assumes q: "0 \<le> q" and d: "fl q = Fin q"
  shows "strToNumber (padStart 16 ''0'' (numToString (Fin q))) = Fin q"
proof (cases "q = 0")
  case True
  have "padStart 16 ''0'' ''0'' = replicate 15 CHR ''0'' @ ''0''" by (simp add: padStart_zero)
  also have "\<dots> = replicate (15 + 1) CHR ''0''" by (simp only: replicate_add) simp
  finally have "strToNumber (padStart 16 ''0'' ''0'') = Fin 0" by (simp only: strToNumber_zeros)
  then show ?thesis using True by (simp add: numToString_def)
next
  case False
  then have "0 < q" using q by simp
  then show ?thesis using pad_roundtrip_pos [OF _ d] by (simp add: padStart_zero numToString_def)
qed

section \<open>Properties of the texts\<close>

lemma startsWith_iff: "startsWith s t \<longleftrightarrow> (\<exists>q. s = t @ q)"
  by (induction s t rule: startsWith.induct) auto

lemma includes_iff: "str_includes s t \<longleftrightarrow> (\<exists>p q. s = p @ t @ q)"
proof (induction s)
  case Nil
  show ?case by (cases t) auto
next
  case (Cons d s)
  show ?case
  proof
    assume "str_includes (d # s) t"
    then consider "startsWith (d # s) t" | "str_includes s t" by auto
    then show "\<exists>p q. d # s = p @ t @ q"
    proof cases
      case 1
      then obtain q where "d # s = t @ q" by (auto simp: startsWith_iff)
      then have "d # s = [] @ t @ q" by simp
      then show ?thesis by blast
    next
      case 2
      then obtain p q where "s = p @ t @ q" using Cons.IH by blast
      then have "d # s = (d # p) @ t @ q" by simp
      then show ?thesis by blast
    qed
  next
    assume "\<exists>p q. d # s = p @ t @ q"
    then obtain p q where pq: "d # s = p @ t @ q" by blast
    show "str_includes (d # s) t"
    proof (cases p)
      case Nil
      with pq have "startsWith (d # s) t" by (auto simp: startsWith_iff)
      then show ?thesis by simp
    next
      case (Cons e p')
      with pq have "s = p' @ t @ q" by simp
      then have "str_includes s t" using Cons.IH by blast
      then show ?thesis by simp
    qed
  qed
qed

section \<open>Properties of the generator\<close>

lemma fl_bounded:
  assumes "0 \<le> v" "v \<le> B" "fl B = Fin B'"
  shows "\<exists>r. fl v = Fin r \<and> 0 \<le> r \<and> r \<le> B'"
proof -
  have 1: "jsLe (Fin 0) (fl v)" using fl_mono [of 0 v] assms(1) by simp
  have 2: "jsLe (fl v) (Fin B')" using fl_mono [of v B] assms by simp
  show ?thesis using 1 2 by (cases "fl v") auto
qed

lemma fl_lower:
  assumes "0 \<le> a" "a \<le> v" "fl a = Fin a" "fl v = Fin r"
  shows "a \<le> r"
  using fl_mono [of a v] assms by simp

lemma fl_two_power:
  assumes "n \<le> 1023"
  shows "fl (2 ^ n) = Fin (2 ^ n)"
proof -
  have "(2::rat) ^ n \<le> 2 ^ 1023" using assms by (intro power_increasing) auto
  also have "\<dots> < 2 powi 1024" by simp
  finally have "of_int 1 * 2 powi (int n) < (2::rat) powi 1024" by simp
  from fl_exact [OF _ _ _ this] show ?thesis by simp
qed

lemma fl_max_plus: "fl (2 ^ 1024 - 2 ^ 971 + 2 ^ 522) = Fin (2 ^ 1024 - 2 ^ 971)"
proof -
  define Q :: rat where "Q = 2 ^ 1024 - 2 ^ 971 + 2 ^ 522"
  have Q: "0 < Q" by (simp add: Q_def)
  have b: "binade Q = 1023" by (rule binade_unique) (simp_all add: Q_def)
  have u: "ulp Q = 2 ^ 971" by (simp add: ulp_def b)
  have "\<bar>Q / 2 ^ 971 - of_int (2 ^ 53 - 1)\<bar> < 1 / 2" by (simp add: Q_def)
  then have "rne (Q / 2 ^ 971) = 2 ^ 53 - 1" by (rule rne_unique)
  then have r: "round_grid Q = 2 ^ 1024 - 2 ^ 971" by (simp add: round_grid_def u)
  show ?thesis unfolding Q_def [symmetric] by (simp add: fl_pos [OF Q] r)
qed

lemma step_props:
  assumes i: "0 \<le> i" "fl i = Fin i"
  shows "\<exists>s. jsMul (jsSqrt (Fin i)) (Fin 1024) = Fin s \<and> 0 \<le> s \<and> s \<le> 2 ^ 522 \<and> fl s = Fin s
           \<and> (1 \<le> i \<longrightarrow> 1024 \<le> s)"
proof (cases "i = 0")
  case True
  then show ?thesis by (simp add: jsSqrt_def)
next
  case False
  then have i0: "0 < i" using i by simp
  have "i \<le> 2 ^ 1024 - 2 ^ 971" by (rule double_le_max [OF i(2)])
  also have "\<dots> < (2::rat) powi 1024" by simp
  finally have ib: "i < 2 powi 1024" .
  define v where "v = sqrt_arg i"
  have v: "0 < v" "v < 2 ^ 512"
    unfolding v_def using sqrt_arg_pos [OF i0] sqrt_arg_less [OF i0 ib] by simp_all
  have "fl ((2::rat) ^ 512) = Fin (2 ^ 512)" by (rule fl_two_power) simp
  from fl_bounded [OF _ _ this, of v] v obtain r where
    r: "fl v = Fin r" "0 \<le> r" "r \<le> 2 ^ 512" by auto
  have "r * 1024 \<le> 2 ^ 512 * 1024" using r(3) by simp
  also have "(2::rat) ^ 512 * 1024 = 2 ^ 522" by simp
  finally have r1024: "r * 1024 \<le> 2 ^ 522" .
  have "fl ((2::rat) ^ 522) = Fin (2 ^ 522)" by (rule fl_two_power) simp
  from fl_bounded [OF _ r1024 this] r(2) obtain s where
    s: "fl (r * 1024) = Fin s" "0 \<le> s" "s \<le> 2 ^ 522" by auto
  have js: "jsMul (jsSqrt (Fin i)) (Fin 1024) = Fin s"
    using i0 by (simp add: jsSqrt_def sqrt_fin_def v_def [symmetric] r(1) s(1))
  have ss: "fl s = Fin s" using s(1) by (rule fl_idem)
  have "1024 \<le> s" if "1 \<le> i"
  proof -
    have "1 \<le> v" unfolding v_def by (rule sqrt_arg_ge_1 [OF that])
    moreover have "fl 1 = Fin 1" using fl_nat [of 1] by simp
    ultimately have "1 \<le> r" using fl_lower [of 1 v r] r(1) by simp
    then have "1024 \<le> r * 1024" by simp
    moreover have "fl 1024 = Fin 1024" using fl_nat [of 1024] by simp
    ultimately show ?thesis using fl_lower [of 1024 "r * 1024" s] s(1) by simp
  qed
  then show ?thesis using js s ss by blast
qed

lemma sum_props:
  assumes c: "0 \<le> c" "fl c = Fin c" and s: "0 \<le> s" "s \<le> 2 ^ 522"
  shows "\<exists>y. jsAdd (Fin c) (Fin s) = Fin y \<and> c \<le> y \<and> fl y = Fin y"
proof -
  have "c \<le> 2 ^ 1024 - 2 ^ 971" by (rule double_le_max [OF c(2)])
  then have le: "c + s \<le> 2 ^ 1024 - 2 ^ 971 + 2 ^ 522" using s(2) by linarith
  have "0 \<le> c + s" using c(1) s(1) by simp
  from fl_bounded [OF this le fl_max_plus] obtain y where
    y: "fl (c + s) = Fin y" "0 \<le> y" by auto
  have "c \<le> c + s" using s(1) by simp
  from fl_lower [OF c(1) this c(2) y(1)] have "c \<le> y" .
  moreover have "fl y = Fin y" using y(1) by (rule fl_idem)
  ultimately show ?thesis using y(1) by simp
qed

lemma nextCode_sum:
  assumes c: "0 \<le> c" "fl c = Fin c" and i: "0 \<le> i" "fl i = Fin i"
  shows "\<exists>s y. jsMul (jsSqrt (Fin i)) (Fin 1024) = Fin s \<and> 0 \<le> s \<and> (1 \<le> i \<longrightarrow> 1024 \<le> s)
           \<and> fl (c + s) = Fin y \<and> c \<le> y \<and> fl y = Fin y
           \<and> nextCode (Fin i) (Fin c) = Fin (of_int \<lfloor>y + 1 / 2\<rfloor>)"
proof -
  from step_props [OF i] obtain s where
    s: "jsMul (jsSqrt (Fin i)) (Fin 1024) = Fin s" "0 \<le> s" "s \<le> 2 ^ 522" "1 \<le> i \<longrightarrow> 1024 \<le> s"
    by blast
  from sum_props [OF c s(2,3)] obtain y where
    y: "jsAdd (Fin c) (Fin s) = Fin y" "c \<le> y" "fl y = Fin y" by blast
  have y0: "0 \<le> y" using c(1) y(2) by simp
  have y': "fl (c + s) = Fin y" using y(1) by simp
  have "nextCode (Fin i) (Fin c) = Fin (of_int \<lfloor>y + 1 / 2\<rfloor>)"
    by (simp add: nextCode_def s(1) y' pad_roundtrip [OF y0 y(3)])
  then show ?thesis using s y y' by auto
qed

lemma nextCode_formula:
  assumes c: "0 \<le> c" "fl c = Fin c" and i: "0 \<le> i" "fl i = Fin i"
  shows "nextCode (Fin i) (Fin c) = jsRound (jsAdd (Fin c) (jsMul (jsSqrt (Fin i)) (Fin 1024)))"
proof -
  from nextCode_sum [OF c i] obtain s y where
    "jsMul (jsSqrt (Fin i)) (Fin 1024) = Fin s" "fl (c + s) = Fin y"
    "nextCode (Fin i) (Fin c) = Fin (of_int \<lfloor>y + 1 / 2\<rfloor>)" by blast
  then show ?thesis by simp
qed

lemma nextCode_ge:
  assumes c: "0 \<le> c" "fl c = Fin c" "c \<in> \<int>" and i: "0 \<le> i" "fl i = Fin i"
  shows "jsGe (nextCode (Fin i) (Fin c)) (Fin c)"
proof -
  from nextCode_sum [OF c(1,2) i] obtain s y where
    y: "c \<le> y" "nextCode (Fin i) (Fin c) = Fin (of_int \<lfloor>y + 1 / 2\<rfloor>)" by blast
  obtain z where z: "c = of_int z" using c(3) by (rule Ints_cases)
  have "of_int z \<le> y + 1 / 2" using y(1) z by simp
  then have "z \<le> \<lfloor>y + 1 / 2\<rfloor>" by (simp only: le_floor_iff)
  then have "c \<le> of_int \<lfloor>y + 1 / 2\<rfloor>" unfolding z by (simp only: of_int_le_iff)
  then show ?thesis by (simp add: jsGe_def y(2))
qed

lemma ceiling_double:
  assumes x: "0 < x" "fl x = Fin x"
  shows "fl (of_int \<lceil>x\<rceil>) = Fin (of_int \<lceil>x\<rceil>)"
proof (cases "x \<le> 2 ^ 52")
  case True
  then have "\<lceil>x\<rceil> \<le> 2 ^ 52" by (simp add: ceiling_le_iff)
  moreover have "0 \<le> \<lceil>x\<rceil>" using x(1) by simp
  ultimately show ?thesis by (intro fl_nat) auto
next
  case False
  then have "2 ^ 52 \<le> x" by simp
  from double_large_int [OF x(2) this] have e: "of_int \<lceil>x\<rceil> = x" by (auto simp: Ints_def)
  show ?thesis unfolding e by (rule x(2))
qed

lemma floor_int_half: "\<lfloor>(of_int n :: rat) + 1 / 2\<rfloor> = n"
  by (rule floor_unique) simp_all

lemma round_double:
  assumes y: "0 \<le> y" "fl y = Fin y"
  shows "fl (of_int \<lfloor>y + 1 / 2\<rfloor>) = Fin (of_int \<lfloor>y + 1 / 2\<rfloor>)"
proof (cases "y \<le> 2 ^ 52")
  case True
  then have "y + 1 / 2 < of_int (2 ^ 52 + 1)" by simp
  then have "\<lfloor>y + 1 / 2\<rfloor> < 2 ^ 52 + 1" by (simp only: floor_less_iff)
  then have "\<lfloor>y + 1 / 2\<rfloor> \<le> 2 ^ 53" by simp
  moreover have "0 \<le> \<lfloor>y + 1 / 2\<rfloor>" using y(1) by simp
  ultimately show ?thesis by (intro fl_nat) auto
next
  case False
  then have "2 ^ 52 \<le> y" by simp
  from double_large_int [OF y(2) this] obtain z where z: "y = of_int z" by (auto simp: Ints_def)
  have "\<lfloor>y + 1 / 2\<rfloor> = z" unfolding z by (rule floor_int_half)
  then show ?thesis using y(2) z by simp
qed

lemma nextCode_closed:
  assumes c: "0 \<le> c" "fl c = Fin c" "c \<in> \<int>" and i: "0 \<le> i" "fl i = Fin i"
  shows "\<exists>d. nextCode (Fin i) (Fin c) = Fin d \<and> c \<le> d \<and> fl d = Fin d \<and> d \<in> \<int>"
proof -
  from nextCode_sum [OF c(1,2) i] obtain s y where
    y: "c \<le> y" "fl y = Fin y"
    and n: "nextCode (Fin i) (Fin c) = Fin (of_int \<lfloor>y + 1 / 2\<rfloor>)" by blast
  have y0: "0 \<le> y" using c(1) y(1) by simp
  have "jsGe (Fin (of_int \<lfloor>y + 1 / 2\<rfloor>)) (Fin c)"
    using nextCode_ge [OF c i] by (simp only: n)
  then have "c \<le> of_int \<lfloor>y + 1 / 2\<rfloor>" by (simp add: jsGe_def)
  moreover have "fl (of_int \<lfloor>y + 1 / 2\<rfloor>) = Fin (of_int \<lfloor>y + 1 / 2\<rfloor>)"
    by (rule round_double [OF y0 y(2)])
  moreover have "(of_int \<lfloor>y + 1 / 2\<rfloor> :: rat) \<in> \<int>" by simp
  ultimately show ?thesis using n by blast
qed

lemma nextCode_not_below:
  assumes x: "0 < x" "fl x = Fin x" and i: "1 \<le> i" "fl i = Fin i"
  shows "\<not> jsLt (nextCode (Fin i) (Fin x)) (Fin x)"
proof -
  have x0: "0 \<le> x" and i0: "0 \<le> i" using x(1) i(1) by simp_all
  from nextCode_sum [OF x0 x(2) i0 i(2)] i(1) obtain s y where
    s: "1024 \<le> s" and y: "fl (x + s) = Fin y"
    and n: "nextCode (Fin i) (Fin x) = Fin (of_int \<lfloor>y + 1 / 2\<rfloor>)" by blast
  have "of_int \<lceil>x\<rceil> \<le> x + 1" by linarith
  then have le: "of_int \<lceil>x\<rceil> \<le> x + s" using s by linarith
  have c0: "(0::rat) \<le> of_int \<lceil>x\<rceil>" using x(1) by simp
  from fl_lower [OF c0 le ceiling_double [OF x] y] have "of_int \<lceil>x\<rceil> \<le> y" .
  then have "of_int \<lceil>x\<rceil> \<le> y + 1 / 2" by simp
  then have "\<lceil>x\<rceil> \<le> \<lfloor>y + 1 / 2\<rfloor>" by (simp only: le_floor_iff)
  then have "(of_int \<lceil>x\<rceil> :: rat) \<le> of_int \<lfloor>y + 1 / 2\<rfloor>" by (simp only: of_int_le_iff)
  moreover have "x \<le> of_int \<lceil>x\<rceil>" by simp
  ultimately have "x \<le> of_int \<lfloor>y + 1 / 2\<rfloor>" by linarith
  then show ?thesis by (auto simp: jsLt_def n)
qed

section \<open>Invariants of the loop\<close>

lemma afterRejected_props:
  assumes "afterRejected cfg (b, w) = (b', w')"
  shows "attempt b' = attempt b"
    and "\<exists>es. events w' = events w @ es \<and> RegisterSignalHandlers \<notin> set es
           \<and> (\<forall>c. Attempt c \<notin> set es)"
    and "currentCode b' = nextCode (imei cfg) (currentCode b)"
    and "saved_state_file w' = saved_state_file w"
  using assms
  by (auto simp: afterRejected_def periodicSave_def periodicReboot_def saveLastState_def
      rebootDevice_def writeFileSync_def Let_def split: if_splits prod.splits)

lemma afterRejected_no_save:
  assumes "afterRejected cfg (b, w) = (b', w')"
    and "saveStateAfter cfg = Some k" "2 \<le> k" "attempt b = lastSavedAttempt b"
  shows "attempt b' = lastSavedAttempt b'"
    and "\<exists>es. events w' = events w @ es \<and> (\<forall>c. SaveLastState c \<notin> set es)"
  using assms
  by (auto simp: afterRejected_def periodicSave_def periodicReboot_def saveLastState_def
      rebootDevice_def writeFileSync_def Let_def enabled_def interval_def split: if_splits prod.splits)

lemma bruteforce_events:
  assumes "bruteforce n cfg msgs dev (b, w) = (r, b', w')"
  shows "attempt b' = attempt b
       \<and> (\<exists>es. events w' = events w @ es \<and> RegisterSignalHandlers \<notin> set es
             \<and> (0 < n \<longrightarrow> es \<noteq> [] \<and> hd es = Attempt (currentCode b)))"
  using assms
proof (induction n arbitrary: b w)
  case 0
  then show ?case by simp
next
  case (Suc n)
  obtain result w1 where a: "attemptCode cfg msgs dev w (currentCode b) = (result, w1)"
    by (cases "attemptCode cfg msgs dev w (currentCode b)")
  then have w1: "events w1 = events w @ [Attempt (currentCode b)]"
    by (auto simp: attemptCode_def)
  show ?case
  proof (cases result)
    case (Inl e)
    then show ?thesis using Suc.prems a w1 by auto
  next
    case (Inr ok)
    show ?thesis
    proof (cases ok)
      case True
      then show ?thesis using Suc.prems a w1 Inr by (auto simp: saveBootloaderCode_def writeFileSync_def)
    next
      case False
      obtain b2 w2 where ar: "afterRejected cfg (b, w1) = (b2, w2)"
        by (cases "afterRejected cfg (b, w1)")
      from afterRejected_props [OF ar] obtain es where
        p: "attempt b2 = attempt b" "events w2 = events w1 @ es" "RegisterSignalHandlers \<notin> set es"
        by blast
      show ?thesis
      proof (cases "jsGe (currentCode b2) ceiling_code")
        case True
        then have "b' = b2" "w' = w2" using Suc.prems a Inr False ar by auto
        then show ?thesis using p w1 by auto
      next
        case nc: False
        then have "bruteforce n cfg msgs dev (b2, w2) = (r, b', w')"
          using Suc.prems a Inr False ar by auto
        from Suc.IH [OF this] obtain es' where
          "attempt b' = attempt b2" "events w' = events w2 @ es'" "RegisterSignalHandlers \<notin> set es'"
          by blast
        then show ?thesis using p w1 by auto
      qed
    qed
  qed
qed

lemma bruteforce_no_save:
  assumes "bruteforce n cfg msgs dev (b, w) = (r, b', w')"
    and "saveStateAfter cfg = Some k" "2 \<le> k" "attempt b = lastSavedAttempt b"
  shows "\<exists>es. events w' = events w @ es \<and> (\<forall>c. SaveLastState c \<notin> set es)"
  using assms(1,4)
proof (induction n arbitrary: b w)
  case 0
  then show ?case by simp
next
  case (Suc n)
  obtain result w1 where a: "attemptCode cfg msgs dev w (currentCode b) = (result, w1)"
    by (cases "attemptCode cfg msgs dev w (currentCode b)")
  then have w1: "events w1 = events w @ [Attempt (currentCode b)]"
    by (auto simp: attemptCode_def)
  show ?case
  proof (cases result)
    case (Inl e)
    then show ?thesis using Suc.prems a w1 by auto
  next
    case (Inr ok)
    show ?thesis
    proof (cases ok)
      case True
      then show ?thesis using Suc.prems a w1 Inr by (auto simp: saveBootloaderCode_def writeFileSync_def)
    next
      case False
      obtain b2 w2 where ar: "afterRejected cfg (b, w1) = (b2, w2)"
        by (cases "afterRejected cfg (b, w1)")
      from afterRejected_no_save [OF ar assms(2,3) Suc.prems(2)] obtain es where
        p: "attempt b2 = lastSavedAttempt b2" "events w2 = events w1 @ es" "\<forall>c. SaveLastState c \<notin> set es"
        by blast
      show ?thesis
      proof (cases "jsGe (currentCode b2) ceiling_code")
        case True
        then have "b' = b2" "w' = w2" using Suc.prems a Inr False ar by auto
        then show ?thesis using p w1 by auto
      next
        case nc: False
        then have "bruteforce n cfg msgs dev (b2, w2) = (r, b', w')"
          using Suc.prems a Inr False ar by auto
        from Suc.IH [OF this p(1)] obtain es' where
          "events w' = events w2 @ es'" "\<forall>c. SaveLastState c \<notin> set es'"
          by blast
        then show ?thesis using p w1 by auto
      qed
    qed
  qed
qed

lemma bruteforce_file:
  assumes "bruteforce n cfg msgs dev (b, w) = (r, b', w')"
  shows "saved_state_file w' = saved_state_file w"
  using assms
proof (induction n arbitrary: b w)
  case 0
  then show ?case by simp
next
  case (Suc n)
  obtain result w1 where a: "attemptCode cfg msgs dev w (currentCode b) = (result, w1)"
    by (cases "attemptCode cfg msgs dev w (currentCode b)")
  then have w1: "saved_state_file w1 = saved_state_file w"
    by (auto simp: attemptCode_def)
  show ?case
  proof (cases result)
    case (Inl e)
    then show ?thesis using Suc.prems a w1 by auto
  next
    case (Inr ok)
    show ?thesis
    proof (cases ok)
      case True
      then show ?thesis using Suc.prems a w1 Inr by (auto simp: saveBootloaderCode_def writeFileSync_def)
    next
      case False
      obtain b2 w2 where ar: "afterRejected cfg (b, w1) = (b2, w2)"
        by (cases "afterRejected cfg (b, w1)")
      from afterRejected_props [OF ar] have p: "saved_state_file w2 = saved_state_file w1" by blast
      show ?thesis
      proof (cases "jsGe (currentCode b2) ceiling_code")
        case True
        then have "w' = w2" using Suc.prems a Inr False ar by auto
        then show ?thesis using p w1 by simp
      next
        case nc: False
        then have "bruteforce n cfg msgs dev (b2, w2) = (r, b', w')"
          using Suc.prems a Inr False ar by auto
        from Suc.IH [OF this] show ?thesis using p w1 by simp
      qed
    qed
  qed
qed

lemma start_file: "saved_state_file (snd (snd (start fuel cfg msgs dev w))) = saved_state_file w"
proof -
  define b1 where "b1 = new_Bruteforce\<lparr>attempt := 0,
      currentCode := nextCode (imei cfg) (case getLastSavedState w of Some x \<Rightarrow> x
                                 | None \<Rightarrow> Fin 1000000000000000)\<rparr>"
  obtain r2 b2 w2 where bf: "bruteforce fuel cfg msgs dev (b1, rebootDevice w) = (r2, b2, w2)"
    by (cases "bruteforce fuel cfg msgs dev (b1, rebootDevice w)")
  have st: "start fuel cfg msgs dev w =
      (case r2 of Some (Inr code) \<Rightarrow> (r2, b2, w2\<lparr>events := events w2 @ [RegisterSignalHandlers]\<rparr>)
       | _ \<Rightarrow> (r2, b2, w2))"
    using bf by (simp add: start_def Let_def b1_def new_Bruteforce_def)
  have "saved_state_file w2 = saved_state_file w"
    using bruteforce_file [OF bf] by (simp add: rebootDevice_def)
  then show ?thesis unfolding st by (auto split: option.splits sum.splits)
qed

lemma bruteforce_code_mono:
  assumes "bruteforce n cfg msgs dev (b, w) = (r, b', w')"
    and i: "imei cfg = Fin i" "0 \<le> i" "fl i = Fin i"
    and c: "currentCode b = Fin c" "0 \<le> c" "fl c = Fin c" "c \<in> \<int>"
  shows "\<exists>d. currentCode b' = Fin d \<and> c \<le> d"
  using assms(1) c
proof (induction n arbitrary: b w c)
  case 0
  then show ?case by simp
next
  case (Suc n)
  obtain result w1 where a: "attemptCode cfg msgs dev w (currentCode b) = (result, w1)"
    by (cases "attemptCode cfg msgs dev w (currentCode b)")
  show ?case
  proof (cases result)
    case (Inl e)
    then show ?thesis using Suc.prems a by auto
  next
    case (Inr ok)
    show ?thesis
    proof (cases ok)
      case True
      then show ?thesis using Suc.prems a Inr by auto
    next
      case False
      obtain b2 w2 where ar: "afterRejected cfg (b, w1) = (b2, w2)"
        by (cases "afterRejected cfg (b, w1)")
      from afterRejected_props [OF ar]
      have "currentCode b2 = nextCode (Fin i) (Fin c)" using i(1) Suc.prems(2) by simp
      with nextCode_closed [OF Suc.prems(3,4,5) i(2,3)] obtain d where
        d: "currentCode b2 = Fin d" "c \<le> d" "fl d = Fin d" "d \<in> \<int>" by auto
      have d0: "0 \<le> d" using Suc.prems(3) d(2) by simp
      show ?thesis
      proof (cases "jsGe (currentCode b2) ceiling_code")
        case True
        then have "b' = b2" using Suc.prems(1) a Inr False ar by auto
        then show ?thesis using d by auto
      next
        case nc: False
        then have "bruteforce n cfg msgs dev (b2, w2) = (r, b', w')"
          using Suc.prems(1) a Inr False ar by auto
        from Suc.IH [OF this d(1) d0 d(3,4)] obtain d' where
          "currentCode b' = Fin d'" "d \<le> d'" by blast
        then show ?thesis using d(2) by auto
      qed
    qed
  qed
qed

section \<open>Reading the checkpoint\<close>

lemma last_dropWhile: "dropWhile P xs \<noteq> [] \<Longrightarrow> last (dropWhile P xs) = last xs"
  by (metis takeWhile_dropWhile_id last_appendR)

lemma trim_ends:
  assumes "trim s \<noteq> []"
  shows "\<not> isWhiteSpace (hd (trim s))" and "\<not> isWhiteSpace (last (trim s))"
proof -
  define u where "u = dropWhile isWhiteSpace s"
  define v where "v = dropWhile isWhiteSpace (rev u)"
  have t: "trim s = rev v" by (simp add: trim_def u_def v_def)
  have v: "v \<noteq> []" using assms t by simp
  then have ru: "rev u \<noteq> []" by (auto simp: v_def)
  then have u: "u \<noteq> []" by simp
  have "\<not> isWhiteSpace (hd v)" using v unfolding v_def by (rule hd_dropWhile)
  then show "\<not> isWhiteSpace (last (trim s))" using v by (simp add: t last_rev)
  have "last v = last (rev u)" using v unfolding v_def by (rule last_dropWhile)
  also have "\<dots> = hd u" using u by (simp add: last_rev)
  finally have "hd (trim s) = hd u" using v by (simp add: t hd_rev)
  moreover have "\<not> isWhiteSpace (hd u)" using u unfolding u_def by (rule hd_dropWhile)
  ultimately show "\<not> isWhiteSpace (hd (trim s))" by simp
qed

lemma trim_trim: "trim (trim s) = trim s"
proof (cases "trim s = []")
  case True
  show ?thesis by (simp only: True) (simp add: trim_def)
next
  case False
  from trim_id [OF False trim_ends [OF False]] show ?thesis .
qed

lemma strToNumber_trim: "strToNumber (trim s) = strToNumber s"
  by (simp add: strToNumber_def trim_trim)

lemma strToNumber_double:
  assumes "strToNumber s = Fin x"
  shows "fl x = Fin x"
proof -
  have "strToNumber s = Fin 0 \<or> strToNumber s = NaN \<or> strToNumber s = PInf \<or> strToNumber s = NInf
        \<or> (\<exists>v. strToNumber s = fl v)"
    by (auto simp: strToNumber_def Let_def split: option.splits)
  then consider "x = 0" | v where "fl v = Fin x" using assms by auto
  then show ?thesis
  proof cases
    case 1
    then show ?thesis by simp
  next
    case 2
    then show ?thesis by (rule fl_idem)
  qed
qed

lemma load_values:
  assumes "getLastSavedState w = Some X"
  shows "X = NaN \<or> X = PInf \<or> (\<exists>x. X = Fin x \<and> 0 < x \<and> fl x = Fin x)"
proof -
  from assms obtain content where
    c: "X = strToNumber content" "\<not> jsLe (strToNumber (trim content)) (Fin 0)"
    by (auto simp: getLastSavedState_def split: option.splits if_splits)
  then have n: "\<not> jsLe X (Fin 0)" by (simp add: strToNumber_trim)
  show ?thesis
  proof (cases X)
    case (Fin x)
    then have "fl x = Fin x" using c(1) strToNumber_double [of content x] by simp
    then show ?thesis using n Fin by auto
  qed (use n in auto)
qed

lemma digits_val_nonneg: "list_all isDigit ds \<Longrightarrow> 0 \<le> digits_val ds"
proof (induction ds rule: rev_induct)
  case Nil
  show ?case by simp
next
  case (snoc c ds)
  then have "0 \<le> digits_val ds" "isDigit c" by simp_all
  then show ?case by (simp add: digits_val_snoc digit_val_def isDigit_def)
qed

lemma strToNumber_digits:
  assumes "ds \<noteq> []" "list_all isDigit ds"
  shows "strToNumber ds = fl (of_int (digits_val ds))"
proof -
  have "fmt ds [] None = ds" by (simp add: fmt_def)
  moreover have "strToNumber (fmt ds [] None)
      = fl (of_int (digits_val (ds @ [])) * 10 powi (ex_val None - int (length ([]::string))))"
    using assms by (intro strToNumber_fmt) (simp_all add: ex_ok_def)
  ultimately show ?thesis by (simp add: ex_val_def)
qed

lemma load_digits:
  assumes f: "saved_state_file w = Some ds" and ds: "ds \<noteq> []" "list_all isDigit ds"
  shows "getLastSavedState w
           = (if digits_val ds = 0 then None else Some (fl (of_int (digits_val ds))))"
proof -
  define n where "n = digits_val ds"
  have n0: "0 \<le> n" unfolding n_def by (rule digits_val_nonneg [OF ds(2)])
  have X: "strToNumber ds = fl (of_int n)" unfolding n_def by (rule strToNumber_digits [OF ds])
  have T: "strToNumber (trim ds) = fl (of_int n)" by (simp add: strToNumber_trim X)
  show ?thesis
  proof (cases "n = 0")
    case True
    then show ?thesis using ds(1) by (simp add: getLastSavedState_def f T X n_def [symmetric])
  next
    case False
    then have "1 \<le> n" using n0 by simp
    then have "(1::rat) \<le> of_int n" by simp
    then have "jsLe (fl 1) (fl (of_int n))" by (intro fl_mono) auto
    moreover have "fl 1 = Fin 1" using fl_nat [of 1] by simp
    ultimately have "\<not> jsLe (fl (of_int n)) (Fin 0)" by (cases "fl (of_int n)") auto
    then show ?thesis using ds(1) False by (simp add: getLastSavedState_def f T X n_def [symmetric])
  qed
qed

section \<open>Evaluating the generator\<close>

lemma fl_eval:
  assumes "2 powi e \<le> q" "q < 2 powi (e + 1)" "- 1022 \<le> e" "e \<le> 1022"
    and "\<bar>q / 2 powi (e - 52) - of_int M\<bar> < 1 / 2"
  shows "fl q = Fin (of_int M * 2 powi (e - 52))"
proof -
  have "0 < (2::rat) powi e" by simp
  then have q: "0 < q" using assms(1) by linarith
  have b: "binade q = e" by (rule binade_unique [OF assms(1,2,3)])
  have u: "ulp q = 2 powi (e - 52)" by (simp add: ulp_def b)
  have "rne (q / 2 powi (e - 52)) = M" by (rule rne_unique [OF assms(5)])
  then have r: "round_grid q = of_int M * 2 powi (e - 52)" by (simp add: round_grid_def u)
  have "round_grid q \<le> 2 powi (binade q + 1)" by (rule round_grid_le_top [OF q])
  also have "\<dots> \<le> 2 powi 1023" unfolding b using assms(4) by (intro power_int_increasing) auto
  also have "\<dots> < 2 powi 1024" by simp
  finally have "\<not> 2 powi 1024 \<le> round_grid q" by simp
  then show ?thesis by (simp only: fl_pos [OF q] r if_False)
qed

lemma fl_times8:
  assumes "0 < m" "m < 2 ^ 53"
  shows "fl (of_int (8 * m)) = Fin (of_int (8 * m))"
proof -
  have "(of_int m :: rat) < of_int (2 ^ 53)" using assms(2) by (simp only: of_int_less_iff)
  then have "(of_int m :: rat) * 2 powi 3 < of_int (2 ^ 53) * 2 powi 3"
    by (intro mult_strict_right_mono) auto
  also have "\<dots> < 2 powi 1024" by simp
  finally have "fl (of_int m * 2 powi 3) = Fin (of_int m * 2 powi 3)"
    using assms by (intro fl_exact) auto
  then show ?thesis by (simp add: mult.commute)
qed

lemma jsRound_int: "jsRound (Fin (of_int n)) = Fin (of_int n)"
  by (simp only: jsRound.simps floor_int_half)

lemma sqrt_arg_1: "sqrt_arg 1 = 1"
proof -
  have i: "ilog 2 1 = 0" by (rule ilog_unique) simp_all
  have t: "isqrt 1329227995784915872903807060280344576 = 1152921504606846976"
    by (rule isqrt_unique) simp_all
  show ?thesis by (simp add: sqrt_arg_def i t Let_def)
qed

lemma step_imei_1: "jsMul (jsSqrt (Fin 1)) (Fin 1024) = Fin 1024"
proof -
  have "fl 1 = Fin 1" using fl_nat [of 1] by simp
  moreover have "fl 1024 = Fin 1024" using fl_nat [of 1024] by simp
  ultimately show ?thesis by (simp add: jsSqrt_def sqrt_fin_def sqrt_arg_1)
qed

lemma nextCode_imei_1:
  assumes "0 \<le> z" "fl (of_int z) = Fin (of_int z)" "fl (of_int (z + 1024)) = Fin (of_int (z + 1024))"
  shows "nextCode (Fin 1) (Fin (of_int z)) = Fin (of_int (z + 1024))"
proof -
  have "(0::rat) \<le> of_int z" using assms(1) by simp
  moreover have "fl 1 = Fin 1" using fl_nat [of 1] by simp
  ultimately have "nextCode (Fin 1) (Fin (of_int z))
      = jsRound (jsAdd (Fin (of_int z)) (jsMul (jsSqrt (Fin 1)) (Fin 1024)))"
    using assms(2) by (intro nextCode_formula) auto
  also have "\<dots> = jsRound (fl (of_int (z + 1024)))" by (simp add: step_imei_1)
  also have "\<dots> = Fin (of_int \<lfloor>(of_int (z + 1024) :: rat) + 1 / 2\<rfloor>)" by (simp only: assms(3) jsRound.simps)
  finally show ?thesis by (simp only: floor_int_half)
qed

lemma nextCode_imei_1_times8:
  assumes "0 < m" "m + 128 < 2 ^ 53"
  shows "nextCode (Fin 1) (Fin (of_int (8 * m))) = Fin (of_int (8 * m + 1024))"
proof -
  have 1: "fl (of_int (8 * m)) = Fin (of_int (8 * m))" using assms by (intro fl_times8) auto
  have "fl (of_int (8 * (m + 128))) = Fin (of_int (8 * (m + 128)))" using assms by (intro fl_times8) auto
  then have 2: "fl (of_int (8 * m + 1024)) = Fin (of_int (8 * m + 1024))" by (simp add: algebra_simps)
  show ?thesis using nextCode_imei_1 [OF _ 1 2] assms(1) by simp
qed

section \<open>Runs against the two devices\<close>

lemma rejecting_rejected: "attemptOutput test_messages strict (rejecting n c) = Inr False"
  by (simp add: attemptOutput_def classify_def rejecting_def test_messages_def toLowerCase_def
      lowerChar_def trim_def isWhiteSpace_def)

lemma bruteforce_rejected:
  assumes "attemptOutput msgs (throwOnUnknownErrors cfg) (dev (attempts_made (events w)) (currentCode b)) = Inr False"
  shows "bruteforce (Suc n) cfg msgs dev (b, w) =
     (let (b', w') = afterRejected cfg (b, w\<lparr>events := events w @ [Attempt (currentCode b)]\<rparr>) in
      if jsGe (currentCode b') ceiling_code
      then (Some (Inl (CodeNotFoundException ''No combination found'')), b', w')
      else bruteforce n cfg msgs dev (b', w'))"
  using assms by (simp add: attemptCode_def)

lemma accepting_accepted: "attemptOutput test_messages strict (accepting n c) = Inr True"
  by (simp add: attemptOutput_def classify_def accepting_def test_messages_def toLowerCase_def
      lowerChar_def trim_def isWhiteSpace_def)

lemma load_text:
  assumes "digits_val ds = 8 * m" "0 < m" "m < 2 ^ 53" "ds \<noteq> []" "list_all isDigit ds"
  shows "getLastSavedState \<lparr>saved_state_file = Some ds, code_file = cf, events = es\<rparr>
           = Some (Fin (of_int (8 * m)))"
proof -
  have "fl (of_int (8 * m)) = Fin (of_int (8 * m))" using assms(2,3) by (rule fl_times8)
  then show ?thesis
    using load_digits [of "\<lparr>saved_state_file = Some ds, code_file = cf, events = es\<rparr>" ds] assms
    by simp
qed

lemmas run_defs = start_def new_Bruteforce_def rebootDevice_def attemptCode_def afterRejected_def
  periodicSave_def periodicReboot_def enabled_def interval_def jsGe_def ceiling_code_def Let_def

section \<open>The generator outside the numbers\<close>

lemma strToNumber_padded_NaN: "strToNumber (padStart 16 ''0'' ''NaN'') = NaN"
proof -
  have "padStart 16 ''0'' ''NaN'' = ''0000000000000NaN''"
    by (simp add: padStart_zero eval_nat_numeral)
  then show ?thesis
    by (simp add: strToNumber_def trim_def isWhiteSpace_def nondecimal_def parse_decimal_def
        parse_exponent_def isDigit_def Let_def)
qed

lemma strToNumber_padded_Infinity: "strToNumber (padStart 16 ''0'' ''Infinity'') = NaN"
proof -
  have "padStart 16 ''0'' ''Infinity'' = ''00000000Infinity''"
    by (simp add: padStart_zero eval_nat_numeral)
  then show ?thesis
    by (simp add: strToNumber_def trim_def isWhiteSpace_def nondecimal_def parse_decimal_def
        parse_exponent_def isDigit_def Let_def)
qed

lemma nextCode_NaN: "nextCode i NaN = NaN"
  by (simp add: nextCode_def numToString_def strToNumber_padded_NaN)

lemma nextCode_PInf:
  assumes "jsMul (jsSqrt i) (Fin 1024) = Fin s"
  shows "nextCode i PInf = NaN"
  by (simp add: nextCode_def assms numToString_def strToNumber_padded_Infinity)

section \<open>Further values\<close>

lemma sqrt_arg_3: "sqrt_arg 3 = 3993837246235628775 / 2305843009213693952"
proof -
  have i: "ilog 2 3 = 1" by (rule ilog_unique) simp_all
  have t: "isqrt 3987683987354747618711421180841033728 = 1996918623117814387"
    by (rule isqrt_unique) simp_all
  show ?thesis by (simp add: sqrt_arg_def i t Let_def)
qed

lemma step_imei_3: "jsMul (jsSqrt (Fin 3)) (Fin 1024) = Fin (7800463371553962 / 4398046511104)"
proof -
  have "fl (3993837246235628775 / 2305843009213693952)
      = Fin (of_int 7800463371553962 * 2 powi (0 - 52))"
    by (rule fl_eval) simp_all
  then have r: "jsSqrt (Fin 3) = Fin (7800463371553962 / 4503599627370496)"
    by (simp add: jsSqrt_def sqrt_fin_def sqrt_arg_3)
  have "fl (of_int 7800463371553962 * 2 powi (- 42)) = Fin (of_int 7800463371553962 * 2 powi (- 42))"
    by (rule fl_exact) simp_all
  then show ?thesis by (simp add: r)
qed

lemma numToString_1e21: "numToString (Fin (10 ^ 21)) = ''1e+21''"
proof -
  define q :: rat where "q = 10 ^ 21"
  have il: "ilog 10 q = 21" by (rule ilog_unique) (simp_all add: q_def)
  have f1: "fl q = Fin q"
  proof -
    have "fl (of_int 476837158203125 * 2 powi 21) = Fin (of_int 476837158203125 * 2 powi 21)"
      by (rule fl_exact) simp_all
    then show ?thesis by (simp add: q_def)
  qed
  have f2: "fl (2 * q) = Fin (2 * q)"
  proof -
    have "fl (of_int 476837158203125 * 2 powi 22) = Fin (of_int 476837158203125 * 2 powi 22)"
      by (rule fl_exact) simp_all
    then show ?thesis by (simp add: q_def)
  qed
  have sc: "(10::rat) powi (ilog 10 q + 1 - int 1) = q" unfolding il by (simp add: q_def)
  have q0: "q \<noteq> 0" "2 * q \<noteq> q" by (simp_all add: q_def)
  have da: "digits_at 1 q = Some (1, 22)"
    unfolding digits_at_def Let_def sc using q0 by (simp add: pick_digits_def f1 f2 il)
  have sd: "shortest_digits q = (1, 1, 22)"
    unfolding shortest_digits_def by (rule find_digits_first [OF da])
  have d1: "digits_of 1 = ''1''" by (simp add: digits_of.simps digit_char_def)
  have d21: "digits_of 21 = ''21''" by (simp add: digits_of.simps digit_char_def)
  have "pos_to_string q = ''1e+21''" by (simp add: pos_to_string_def sd Let_def d1 d21)
  then show ?thesis by (simp add: numToString_def q_def)
qed

section \<open>The signal handlers\<close>

text \<open>
  Claim C1. The handlers of SIGINT and SIGTERM, which save the current code, are to be in
  effect throughout the search loop. \<open>start\<close> registers them by the statement after
  \<open>await this.bruteforce()\<close>: in the log of every run the registration stands after all
  attempts, and it stands there only when the loop has returned a code. While the loop
  runs, and when it throws, no handler is registered, and a signal ends the process
  without a checkpoint.
\<close>

theorem handlers_registered_after_loop:
  assumes run: "start fuel cfg msgs dev w = (r, b, w')"
  shows "\<exists>es. events w' = events w @ Reboot # es
                  @ (case r of Some (Inr c) \<Rightarrow> [RegisterSignalHandlers] | _ \<Rightarrow> [])
           \<and> RegisterSignalHandlers \<notin> set es
           \<and> (0 < fuel \<longrightarrow> (\<exists>c es'. es = Attempt c # es'))"
proof -
  define b1 where "b1 = new_Bruteforce\<lparr>attempt := 0,
      currentCode := nextCode (imei cfg) (case getLastSavedState w of Some x \<Rightarrow> x
                                 | None \<Rightarrow> Fin 1000000000000000)\<rparr>"
  obtain r2 b2 w2 where bf: "bruteforce fuel cfg msgs dev (b1, rebootDevice w) = (r2, b2, w2)"
    by (cases "bruteforce fuel cfg msgs dev (b1, rebootDevice w)")
  have st: "start fuel cfg msgs dev w =
      (case r2 of Some (Inr code) \<Rightarrow> (r2, b2, w2\<lparr>events := events w2 @ [RegisterSignalHandlers]\<rparr>)
       | _ \<Rightarrow> (r2, b2, w2))"
    using bf by (simp add: start_def Let_def b1_def new_Bruteforce_def)
  from bruteforce_events [OF bf] obtain es where
    es: "events w2 = events (rebootDevice w) @ es" "RegisterSignalHandlers \<notin> set es"
      "0 < fuel \<longrightarrow> es \<noteq> [] \<and> hd es = Attempt (currentCode b1)" by blast
  have hd: "0 < fuel \<longrightarrow> (\<exists>c es'. es = Attempt c # es')"
    using es(3) by (cases es) auto
  have rr: "r = r2" using run st by (auto split: option.splits sum.splits)
  have "events w' = events w2 @ (case r of Some (Inr c) \<Rightarrow> [RegisterSignalHandlers] | _ \<Rightarrow> [])"
    using run st by (auto split: option.splits sum.splits)
  then have "events w' = events w @ Reboot # es
                  @ (case r of Some (Inr c) \<Rightarrow> [RegisterSignalHandlers] | _ \<Rightarrow> [])"
    using es(1) by (simp add: rebootDevice_def)
  then show ?thesis using es(2) hd by blast
qed

theorem handlers_registered_after_loop_witness:
  "case start (Suc 0)
          \<lparr>imei = Fin 1, autorebootAfter = None, throwOnUnknownErrors = False, saveStateAfter = None\<rparr>
          test_messages accepting
          \<lparr>saved_state_file = None, code_file = None, events = []\<rparr>
   of (r, b, w) \<Rightarrow>
     r = Some (Inr (Fin 1000000000001024))
     \<and> events w = [Reboot, Attempt (Fin 1000000000001024),
                    SaveBootloaderCode (Fin 1000000000001024), RegisterSignalHandlers]"
proof -
  let ?cfg = "\<lparr>imei = Fin 1, autorebootAfter = None, throwOnUnknownErrors = False, saveStateAfter = None\<rparr>"
  let ?w = "\<lparr>saved_state_file = None, code_file = None, events = []\<rparr>"
  have N1: "nextCode (Fin 1) (Fin 1000000000000000) = Fin 1000000000001024"
    using nextCode_imei_1_times8 [of 125000000000000] by simp
  obtain r b w where run: "start (Suc 0) ?cfg test_messages accepting ?w = (r, b, w)"
    by (cases "start (Suc 0) ?cfg test_messages accepting ?w")
  have "r = Some (Inr (Fin 1000000000001024))
     \<and> events w = [Reboot, Attempt (Fin 1000000000001024),
                    SaveBootloaderCode (Fin 1000000000001024), RegisterSignalHandlers]"
    using run by (auto simp: run_defs getLastSavedState_def N1 accepting_accepted
        saveBootloaderCode_def writeFileSync_def)
  then show ?thesis using handlers_registered_after_loop [OF run] by (simp add: run)
qed

section \<open>The attempt counter\<close>

text \<open>
  Claim C2. The attempt counter is to advance by one for every rejected attempt, so that
  \<open>saveLastState\<close> runs once every \<open>saveStateAfter\<close> rejected attempts. The code never
  assigns \<open>attempt\<close> after \<open>start\<close> has set it to 0: at every point of every run the counter
  is 0, and with an interval of 2 or more \<open>saveLastState\<close> is not called at all.
\<close>

theorem counters_never_advance:
  assumes run: "start fuel cfg msgs dev w = (r, b, w')"
    and k: "saveStateAfter cfg = Some k" "2 \<le> k" and fresh: "events w = []"
  shows "attempt b = 0 \<and> (\<forall>c. SaveLastState c \<notin> set (events w'))"
proof -
  define b1 where "b1 = new_Bruteforce\<lparr>attempt := 0,
      currentCode := nextCode (imei cfg) (case getLastSavedState w of Some x \<Rightarrow> x
                                 | None \<Rightarrow> Fin 1000000000000000)\<rparr>"
  obtain r2 b2 w2 where bf: "bruteforce fuel cfg msgs dev (b1, rebootDevice w) = (r2, b2, w2)"
    by (cases "bruteforce fuel cfg msgs dev (b1, rebootDevice w)")
  have st: "start fuel cfg msgs dev w =
      (case r2 of Some (Inr code) \<Rightarrow> (r2, b2, w2\<lparr>events := events w2 @ [RegisterSignalHandlers]\<rparr>)
       | _ \<Rightarrow> (r2, b2, w2))"
    using bf by (simp add: start_def Let_def b1_def new_Bruteforce_def)
  have a0: "attempt b1 = 0" "attempt b1 = lastSavedAttempt b1"
    by (simp_all add: b1_def new_Bruteforce_def)
  from bruteforce_events [OF bf] a0 have a2: "attempt b2 = 0" by simp
  from bruteforce_no_save [OF bf k a0(2)] obtain es where
    es: "events w2 = events (rebootDevice w) @ es" "\<forall>c. SaveLastState c \<notin> set es" by blast
  have bb: "b = b2" using run st by (auto split: option.splits sum.splits)
  have "events w' = events w2 \<or> events w' = events w2 @ [RegisterSignalHandlers]"
    using run st by (auto split: option.splits sum.splits)
  then show ?thesis using a2 bb es fresh by (auto simp: rebootDevice_def)
qed

theorem counters_never_advance_witness:
  "case start (Suc (Suc (Suc 0)))
          \<lparr>imei = Fin 1, autorebootAfter = Some 5, throwOnUnknownErrors = False, saveStateAfter = Some 2\<rparr>
          test_messages rejecting
          \<lparr>saved_state_file = Some ''9999999999997000'', code_file = None, events = []\<rparr>
   of (r, b, w) \<Rightarrow>
     r = Some (Inl (CodeNotFoundException ''No combination found''))
     \<and> events w = [Reboot, Attempt (Fin 9999999999998024), Attempt (Fin 9999999999999048)]
     \<and> attempt b = 0 \<and> (\<forall>c. SaveLastState c \<notin> set (events w))"
proof -
  let ?cfg = "\<lparr>imei = Fin 1, autorebootAfter = Some 5, throwOnUnknownErrors = False, saveStateAfter = Some 2\<rparr>"
  let ?w = "\<lparr>saved_state_file = Some ''9999999999997000'', code_file = None, events = []\<rparr>"
  have d: "digits_val ''9999999999997000'' = 8 * 1249999999999625"
    by (simp add: digits_val_def digit_val_def)
  have a: "list_all isDigit ''9999999999997000''" by (simp add: isDigit_def)
  have L: "getLastSavedState ?w = Some (Fin 9999999999997000)"
    using load_text [OF d _ _ _ a] by simp
  have N1: "nextCode (Fin 1) (Fin 9999999999997000) = Fin 9999999999998024"
    using nextCode_imei_1_times8 [of 1249999999999625] by simp
  have N2: "nextCode (Fin 1) (Fin 9999999999998024) = Fin 9999999999999048"
    using nextCode_imei_1_times8 [of 1249999999999753] by simp
  have N3: "nextCode (Fin 1) (Fin 9999999999999048) = Fin 10000000000000072"
    using nextCode_imei_1_times8 [of 1249999999999881] by simp
  obtain r b w where run: "start (Suc (Suc (Suc 0))) ?cfg test_messages rejecting ?w = (r, b, w)"
    by (cases "start (Suc (Suc (Suc 0))) ?cfg test_messages rejecting ?w")
  have c: "attempt b = 0 \<and> (\<forall>c. SaveLastState c \<notin> set (events w))"
    by (rule counters_never_advance [OF run, of 2]) simp_all
  have "r = Some (Inl (CodeNotFoundException ''No combination found''))
     \<and> events w = [Reboot, Attempt (Fin 9999999999998024), Attempt (Fin 9999999999999048)]"
    using run by (auto simp: run_defs L N1 N2 N3 rejecting_rejected)
  then show ?thesis using c by (simp add: run)
qed

section \<open>The ceiling\<close>

text \<open>
  Claim C3. A candidate at or above the ceiling 10000000000000000 is never to be
  submitted to the device. \<open>start\<close> calls \<open>nextCode\<close> and enters the loop without the
  comparison that the loop makes after its own call of \<open>nextCode\<close>: resumed from the
  checkpoint 9999999999999000 with the identifier 1, the run submits 10000000000000024
  and throws \<open>CodeNotFoundException\<close> only after the second call of the generator.
\<close>

theorem resumed_candidate_past_ceiling:
  "case start (Suc (Suc 0))
          \<lparr>imei = Fin 1, autorebootAfter = None, throwOnUnknownErrors = False, saveStateAfter = None\<rparr>
          test_messages rejecting
          \<lparr>saved_state_file = Some ''9999999999999000'', code_file = None, events = []\<rparr>
   of (r, b, w) \<Rightarrow>
     r = Some (Inl (CodeNotFoundException ''No combination found''))
     \<and> events w = [Reboot, Attempt (Fin 10000000000000024)]
     \<and> jsGe (Fin 10000000000000024) ceiling_code"
proof -
  have d: "digits_val ''9999999999999000'' = 8 * 1249999999999875"
    by (simp add: digits_val_def digit_val_def)
  have a: "list_all isDigit ''9999999999999000''" by (simp add: isDigit_def)
  have L: "getLastSavedState \<lparr>saved_state_file = Some ''9999999999999000'', code_file = None, events = []\<rparr>
      = Some (Fin 9999999999999000)"
    using load_text [OF d _ _ _ a] by simp
  have N1: "nextCode (Fin 1) (Fin 9999999999999000) = Fin 10000000000000024"
    using nextCode_imei_1_times8 [of 1249999999999875] by simp
  have N2: "nextCode (Fin 1) (Fin 10000000000000024) = Fin 10000000000001048"
    using nextCode_imei_1_times8 [of 1250000000000003] by simp
  show ?thesis
    by (simp add: run_defs L N1 N2 rejecting_rejected)
qed

section \<open>The response classifier\<close>

text \<open>
  Claim C4. The lower-cased, trimmed output of one attempt is classified by substring
  matching, in the order unsupported, rejected, accepted, fallback: an output containing
  the command-invalid fragment raises the unsupported-command error; otherwise one
  containing the failure fragment is rejected (\<open>false\<close>); otherwise one containing the
  success fragment is accepted (\<open>true\<close>); any other output raises the unrecognized-output
  error when \<open>throwOnUnknownErrors\<close> is set and is rejected when it is not.
\<close>

theorem classify_priority:
  fixes msgs :: adbMessages and out :: string
  defines "unsupported \<equiv> (\<exists>p q. out = p @ commandInvalid msgs @ q)"
      and "failed \<equiv> (\<exists>p q. out = p @ oemUnlockFail msgs @ q)"
      and "succeeded \<equiv> (\<exists>p q. out = p @ oemUnlockSuccess msgs @ q)"
  shows "(unsupported \<longrightarrow> (\<exists>m. classify msgs strict out = Inl (CommandInvalidException m)))
       \<and> (\<not> unsupported \<and> failed \<longrightarrow> classify msgs strict out = Inr False)
       \<and> (\<not> unsupported \<and> \<not> failed \<and> succeeded \<longrightarrow> classify msgs strict out = Inr True)
       \<and> (\<not> unsupported \<and> \<not> failed \<and> \<not> succeeded \<and> strict
            \<longrightarrow> classify msgs strict out = Inl UnknownOutputException)
       \<and> (\<not> unsupported \<and> \<not> failed \<and> \<not> succeeded \<and> \<not> strict
            \<longrightarrow> classify msgs strict out = Inr False)"
  unfolding unsupported_def failed_def succeeded_def
  by (simp add: classify_def includes_iff)

theorem classify_priority_witness:
  "classify \<lparr>commandInvalid = ''unknown command'', oemUnlockFail = ''check password failed'',
       oemUnlockSuccess = ''okay''\<rparr> True ''failed (remote: check password failed)'' = Inr False"
proof -
  let ?m = "\<lparr>commandInvalid = ''unknown command'', oemUnlockFail = ''check password failed'',
       oemUnlockSuccess = ''okay''\<rparr>"
  let ?o = "''failed (remote: check password failed)''"
  have a: "\<not> (\<exists>p q. ?o = p @ commandInvalid ?m @ q)"
    unfolding includes_iff [symmetric] by simp
  have b: "\<exists>p q. ?o = p @ oemUnlockFail ?m @ q"
    unfolding includes_iff [symmetric] by simp
  from classify_priority [where out = ?o and msgs = ?m and strict = True] a b
  show ?thesis by blast
qed

section \<open>Resuming\<close>

text \<open>
  Claim C5. A run that makes an attempt reboots the device and then attempts, first of
  all, the output of the generator for the checkpoint that \<open>getLastSavedState\<close> returns,
  and for 1000000000000000 when it returns nothing; for an identifier of 1 or more that
  first candidate is never below the checkpoint.
\<close>

theorem start_resumes_from_checkpoint:
  assumes "0 < fuel"
  shows "(\<exists>es. events (snd (snd (start fuel cfg msgs dev w)))
            = events w @ Reboot # Attempt (nextCode (imei cfg)
                (case getLastSavedState w of Some X \<Rightarrow> X | None \<Rightarrow> Fin 1000000000000000)) # es)
       \<and> (\<forall>X i. getLastSavedState w = Some X \<and> imei cfg = Fin i \<and> 1 \<le> i \<and> fl i = Fin i
              \<longrightarrow> \<not> jsLt (nextCode (imei cfg) X) X)"
proof
  define b1 where "b1 = new_Bruteforce\<lparr>attempt := 0,
      currentCode := nextCode (imei cfg) (case getLastSavedState w of Some x \<Rightarrow> x
                                 | None \<Rightarrow> Fin 1000000000000000)\<rparr>"
  obtain r2 b2 w2 where bf: "bruteforce fuel cfg msgs dev (b1, rebootDevice w) = (r2, b2, w2)"
    by (cases "bruteforce fuel cfg msgs dev (b1, rebootDevice w)")
  have st: "start fuel cfg msgs dev w =
      (case r2 of Some (Inr code) \<Rightarrow> (r2, b2, w2\<lparr>events := events w2 @ [RegisterSignalHandlers]\<rparr>)
       | _ \<Rightarrow> (r2, b2, w2))"
    using bf by (simp add: start_def Let_def b1_def new_Bruteforce_def)
  from bruteforce_events [OF bf] assms obtain es where
    es: "events w2 = events (rebootDevice w) @ es" "es \<noteq> []" "hd es = Attempt (currentCode b1)"
    by blast
  then obtain es' where "es = Attempt (currentCode b1) # es'" by (cases es) auto
  then have "events w2 = events w @ Reboot # Attempt (currentCode b1) # es'"
    using es(1) by (simp add: rebootDevice_def)
  moreover have "events (snd (snd (start fuel cfg msgs dev w))) = events w2
      \<or> events (snd (snd (start fuel cfg msgs dev w))) = events w2 @ [RegisterSignalHandlers]"
    unfolding st by (auto split: option.splits sum.splits)
  ultimately show "\<exists>es. events (snd (snd (start fuel cfg msgs dev w)))
            = events w @ Reboot # Attempt (nextCode (imei cfg)
                (case getLastSavedState w of Some X \<Rightarrow> X | None \<Rightarrow> Fin 1000000000000000)) # es"
    by (auto simp: b1_def)
next
  show "\<forall>X i. getLastSavedState w = Some X \<and> imei cfg = Fin i \<and> 1 \<le> i \<and> fl i = Fin i
              \<longrightarrow> \<not> jsLt (nextCode (imei cfg) X) X"
  proof (intro allI impI)
    fix X i
    assume h: "getLastSavedState w = Some X \<and> imei cfg = Fin i \<and> 1 \<le> i \<and> fl i = Fin i"
    then have i: "imei cfg = Fin i" "1 \<le> i" "fl i = Fin i" by simp_all
    have i0: "0 \<le> i" using i(2) by simp
    from step_props [OF i0 i(3)] obtain s where s: "jsMul (jsSqrt (Fin i)) (Fin 1024) = Fin s"
      by blast
    from load_values [of w X] h
    consider "X = NaN" | "X = PInf" | x where "X = Fin x" "0 < x" "fl x = Fin x" by blast
    then show "\<not> jsLt (nextCode (imei cfg) X) X"
    proof cases
      case 1
      then show ?thesis by (simp add: nextCode_NaN jsLt_def)
    next
      case 2
      then show ?thesis by (simp add: i(1) nextCode_PInf [OF s] jsLt_def)
    next
      case 3
      then show ?thesis using nextCode_not_below [OF 3(2,3) i(2,3)] by (simp add: i(1))
    qed
  qed
qed

theorem start_resumes_from_checkpoint_witness:
  "events (snd (snd (start (Suc 0)
          \<lparr>imei = Fin 1, autorebootAfter = None, throwOnUnknownErrors = False, saveStateAfter = None\<rparr>
          test_messages rejecting
          \<lparr>saved_state_file = Some ''1000000000002048'', code_file = None, events = []\<rparr>)))
     = [Reboot, Attempt (Fin 1000000000003072)]
   \<and> \<not> jsLt (Fin 1000000000003072) (Fin 1000000000002048)"
proof -
  let ?cfg = "\<lparr>imei = Fin 1, autorebootAfter = None, throwOnUnknownErrors = False, saveStateAfter = None\<rparr>"
  let ?w = "\<lparr>saved_state_file = Some ''1000000000002048'', code_file = None, events = []\<rparr>"
  have d: "digits_val ''1000000000002048'' = 8 * 125000000000256"
    by (simp add: digits_val_def digit_val_def)
  have a: "list_all isDigit ''1000000000002048''" by (simp add: isDigit_def)
  have L: "getLastSavedState ?w = Some (Fin 1000000000002048)"
    using load_text [OF d _ _ _ a] by simp
  have N1: "nextCode (Fin 1) (Fin 1000000000002048) = Fin 1000000000003072"
    using nextCode_imei_1_times8 [of 125000000000256] by simp
  have N2: "nextCode (Fin 1) (Fin 1000000000003072) = Fin 1000000000004096"
    using nextCode_imei_1_times8 [of 125000000000384] by simp
  have f1: "fl 1 = Fin 1" using fl_nat [of 1] by simp
  from start_resumes_from_checkpoint [of "Suc 0" ?cfg test_messages rejecting ?w]
  have "\<not> jsLt (nextCode (Fin 1) (Fin 1000000000002048)) (Fin 1000000000002048)"
    using L f1 by simp
  then have "\<not> jsLt (Fin 1000000000003072) (Fin 1000000000002048)" by (simp add: N1)
  moreover have "events (snd (snd (start (Suc 0) ?cfg test_messages rejecting ?w)))
     = [Reboot, Attempt (Fin 1000000000003072)]"
    by (simp add: run_defs L N1 N2 rejecting_rejected)
  ultimately show ?thesis by simp
qed

section \<open>Loading the checkpoint\<close>

text \<open>
  Claim C6, amended. \<open>getLastSavedState\<close> returns nothing when the checkpoint file is
  absent, when it is empty, and when its content converts to a number that is 0 or less,
  the text \<open>0\<close> included; for the decimal digits of a positive integer up to 2^53 it
  returns that integer.
\<close>

theorem load_positive_integer:
  "(saved_state_file w = None \<longrightarrow> getLastSavedState w = None)
   \<and> (saved_state_file w = Some [] \<longrightarrow> getLastSavedState w = None)
   \<and> (\<forall>c. saved_state_file w = Some c \<and> jsLe (strToNumber c) (Fin 0) \<longrightarrow> getLastSavedState w = None)
   \<and> (\<forall>ds. saved_state_file w = Some ds \<and> ds \<noteq> [] \<and> list_all isDigit ds
            \<and> 0 < digits_val ds \<and> digits_val ds \<le> 2 ^ 53
          \<longrightarrow> getLastSavedState w = Some (Fin (of_int (digits_val ds))))"
proof (intro conjI allI impI)
  show "getLastSavedState w = None" if "saved_state_file w = None"
    using that by (simp add: getLastSavedState_def)
  show "getLastSavedState w = None" if "saved_state_file w = Some []"
    using that by (simp add: getLastSavedState_def)
  show "getLastSavedState w = None" if "saved_state_file w = Some c \<and> jsLe (strToNumber c) (Fin 0)" for c
    using that by (simp add: getLastSavedState_def strToNumber_trim)
  show "getLastSavedState w = Some (Fin (of_int (digits_val ds)))"
    if h: "saved_state_file w = Some ds \<and> ds \<noteq> [] \<and> list_all isDigit ds
            \<and> 0 < digits_val ds \<and> digits_val ds \<le> 2 ^ 53" for ds
  proof -
    have "fl (of_int (digits_val ds)) = Fin (of_int (digits_val ds))"
      using h by (intro fl_nat) auto
    then show ?thesis using load_digits [of w ds] h by simp
  qed
qed

theorem load_positive_integer_witness:
  "getLastSavedState \<lparr>saved_state_file = Some ''1000000000002048'', code_file = None, events = []\<rparr>
     = Some (Fin 1000000000002048)"
proof -
  have d: "digits_val ''1000000000002048'' = 1000000000002048"
    by (simp add: digits_val_def digit_val_def)
  have a: "list_all isDigit ''1000000000002048''" by (simp add: isDigit_def)
  from load_positive_integer [of "\<lparr>saved_state_file = Some ''1000000000002048'', code_file = None, events = []\<rparr>"]
  show ?thesis using d a by simp
qed

text \<open>
  The content \<open>0\<close> is a non-negative integer, and nothing is loaded for it: the guard is
  \<open>content.trim() <= 0\<close>. This is why C6 does not hold as worded.
\<close>

theorem load_zero_is_nothing:
  "getLastSavedState \<lparr>saved_state_file = Some ''0'', code_file = None, events = []\<rparr> = None"
proof -
  have "digits_val ''0'' = 0" by (simp add: digits_val_def digit_val_def)
  then show ?thesis
    using load_digits [of "\<lparr>saved_state_file = Some ''0'', code_file = None, events = []\<rparr>" "''0''"]
    by (simp add: isDigit_def)
qed

section \<open>The generator never goes back\<close>

text \<open>
  Claim C7. For every code, a non-negative integer, and every non-negative identifier the
  output of the generator is greater than or equal to its input, and it is again a
  non-negative integer code; so the current code never decreases along a run: whatever
  the device answers, and however long the loop runs from the code \<open>c\<close>, the current code
  it has reached is \<open>c\<close> or more.
\<close>

theorem nextCode_monotone:
  assumes c: "0 \<le> c" "fl c = Fin c" "c \<in> \<int>" and i: "0 \<le> i" "fl i = Fin i"
    and run: "bruteforce n cfg msgs dev (b, w) = (r, b', w')"
      "imei cfg = Fin i" "currentCode b = Fin c"
  shows "jsGe (nextCode (Fin i) (Fin c)) (Fin c)
       \<and> (\<exists>d. nextCode (Fin i) (Fin c) = Fin d \<and> c \<le> d \<and> fl d = Fin d \<and> d \<in> \<int>)
       \<and> (\<exists>d. currentCode b' = Fin d \<and> c \<le> d)"
proof (intro conjI)
  show "jsGe (nextCode (Fin i) (Fin c)) (Fin c)" using c i by (rule nextCode_ge)
  show "\<exists>d. nextCode (Fin i) (Fin c) = Fin d \<and> c \<le> d \<and> fl d = Fin d \<and> d \<in> \<int>"
    using c i by (rule nextCode_closed)
  show "\<exists>d. currentCode b' = Fin d \<and> c \<le> d"
    by (rule bruteforce_code_mono [OF run(1,2) i run(3) c])
qed

theorem nextCode_monotone_witness:
  "jsGe (nextCode (Fin 1) (Fin 1000000000000000)) (Fin 1000000000000000)
   \<and> (\<exists>d. nextCode (Fin 1) (Fin 1000000000000000) = Fin d \<and> 1000000000000000 \<le> d
          \<and> fl d = Fin d \<and> d \<in> \<int>)
   \<and> (\<exists>d. currentCode (fst (snd (bruteforce (Suc (Suc 0))
          \<lparr>imei = Fin 1, autorebootAfter = None, throwOnUnknownErrors = False, saveStateAfter = None\<rparr>
          test_messages rejecting
          (\<lparr>attempt = 0, currentCode = Fin 1000000000000000, lastSavedAttempt = 0,
              lastRebootAttempt = 0\<rparr>,
           \<lparr>saved_state_file = None, code_file = None, events = []\<rparr>)))) = Fin d
        \<and> 1000000000000000 \<le> d)"
proof -
  let ?cfg = "\<lparr>imei = Fin 1, autorebootAfter = None, throwOnUnknownErrors = False, saveStateAfter = None\<rparr>"
  let ?b = "\<lparr>attempt = 0, currentCode = Fin 1000000000000000, lastSavedAttempt = 0,
              lastRebootAttempt = 0\<rparr>"
  let ?w = "\<lparr>saved_state_file = None, code_file = None, events = []\<rparr>"
  have i: "fl 1 = Fin 1" using fl_nat [of 1] by simp
  have c: "fl 1000000000000000 = Fin 1000000000000000" using fl_nat [of 1000000000000000] by simp
  have h: "0 \<le> (1000000000000000::rat)" "(1000000000000000::rat) \<in> \<int>" "0 \<le> (1::rat)"
    by simp_all
  obtain r b' w' where run: "bruteforce (Suc (Suc 0)) ?cfg test_messages rejecting (?b, ?w) = (r, b', w')"
    by (cases "bruteforce (Suc (Suc 0)) ?cfg test_messages rejecting (?b, ?w)")
  have 1: "imei ?cfg = Fin 1" and 2: "currentCode ?b = Fin 1000000000000000" by simp_all
  from nextCode_monotone [OF h(1) c h(2) h(3) i run 1 2]
  show ?thesis by (simp only: run fst_conv snd_conv)
qed

section \<open>The formula of the generator\<close>

text \<open>
  Claim C8, amended. The step \<open>Math.sqrt(imei) * 1024\<close> is not truncated, and the padding
  is applied to the text of the sum, after the addition: for every non-negative code and
  identifier the generator returns \<open>Math.round(currentCode + Math.sqrt(imei) * 1024)\<close>,
  which is never below the value of the formula with the truncated step.
\<close>

theorem nextCode_untruncated:
  assumes c: "0 \<le> c" "fl c = Fin c" and i: "0 \<le> i" "fl i = Fin i"
  shows "nextCode (Fin i) (Fin c) = jsRound (jsAdd (Fin c) (jsMul (jsSqrt (Fin i)) (Fin 1024)))
       \<and> jsLe (nextCode_pinned (Fin i) (Fin c)) (nextCode (Fin i) (Fin c))"
proof
  show "nextCode (Fin i) (Fin c) = jsRound (jsAdd (Fin c) (jsMul (jsSqrt (Fin i)) (Fin 1024)))"
    by (rule nextCode_formula [OF c i])
  from nextCode_sum [OF c i] obtain s y where
    s: "jsMul (jsSqrt (Fin i)) (Fin 1024) = Fin s" "0 \<le> s" and y: "fl (c + s) = Fin y"
    and n: "nextCode (Fin i) (Fin c) = Fin (of_int \<lfloor>y + 1 / 2\<rfloor>)" by blast
  have f: "0 \<le> \<lfloor>s\<rfloor>" using s(2) by simp
  have lo: "0 \<le> c + of_int \<lfloor>s\<rfloor>" using c(1) f by simp
  have le: "c + of_int \<lfloor>s\<rfloor> \<le> c + s" by simp
  from fl_bounded [OF lo le y] obtain y0 where
    y0: "fl (c + of_int \<lfloor>s\<rfloor>) = Fin y0" "y0 \<le> y" by blast
  have "\<lfloor>y0 + 1 / 2\<rfloor> \<le> \<lfloor>y + 1 / 2\<rfloor>" using y0(2) by (intro floor_mono) simp
  then have "(of_int \<lfloor>y0 + 1 / 2\<rfloor> :: rat) \<le> of_int \<lfloor>y + 1 / 2\<rfloor>" by (simp only: of_int_le_iff)
  moreover have "nextCode_pinned (Fin i) (Fin c) = Fin (of_int \<lfloor>y0 + 1 / 2\<rfloor>)"
    using s(2) by (simp add: nextCode_pinned_def s(1) y0(1))
  ultimately show "jsLe (nextCode_pinned (Fin i) (Fin c)) (nextCode (Fin i) (Fin c))"
    by (simp add: n)
qed

theorem nextCode_untruncated_witness:
  "nextCode (Fin 1) (Fin 1000000000000000)
     = jsRound (jsAdd (Fin 1000000000000000) (jsMul (jsSqrt (Fin 1)) (Fin 1024)))
   \<and> jsLe (nextCode_pinned (Fin 1) (Fin 1000000000000000)) (nextCode (Fin 1) (Fin 1000000000000000))"
proof -
  have i: "fl 1 = Fin 1" using fl_nat [of 1] by simp
  have c: "fl 1000000000000000 = Fin 1000000000000000" using fl_nat [of 1000000000000000] by simp
  have h: "0 \<le> (1000000000000000::rat)" "0 \<le> (1::rat)" by simp_all
  show ?thesis by (rule nextCode_untruncated [OF h(1) c h(2) i])
qed

text \<open>
  For the identifier 3 and the code 1000000000000000 the step is 1773.62..., the
  generator returns 1000000000001774 and the formula with the truncated step
  1000000000001773. This is why C8 does not hold as worded.
\<close>

theorem nextCode_differs_from_pinned:
  "nextCode (Fin 3) (Fin 1000000000000000) = Fin 1000000000001774
   \<and> nextCode_pinned (Fin 3) (Fin 1000000000000000) = Fin 1000000000001773"
proof
  have c: "fl 1000000000000000 = Fin 1000000000000000" using fl_nat [of 1000000000000000] by simp
  have i: "fl 3 = Fin 3" using fl_nat [of 3] by simp
  have "fl (1000000000000000 + 7800463371553962 / 4398046511104)
      = Fin (of_int 8000000000014189 * 2 powi (49 - 52))"
    by (rule fl_eval) simp_all
  then have "jsAdd (Fin 1000000000000000) (jsMul (jsSqrt (Fin 3)) (Fin 1024))
      = Fin (8000000000014189 / 8)" by (simp add: step_imei_3)
  moreover have "\<lfloor>(8000000000014189 / 8 :: rat) + 1 / 2\<rfloor> = 1000000000001774"
    by (rule floor_unique) simp_all
  ultimately have "jsRound (jsAdd (Fin 1000000000000000) (jsMul (jsSqrt (Fin 3)) (Fin 1024)))
      = Fin 1000000000001774" by (simp only: jsRound.simps) simp
  then show "nextCode (Fin 3) (Fin 1000000000000000) = Fin 1000000000001774"
    using nextCode_formula [of 1000000000000000 3] c i by simp
  have "fl 1000000000001773 = Fin 1000000000001773" using fl_nat [of 1000000000001773] by simp
  moreover have "\<lfloor>7800463371553962 / 4398046511104 :: rat\<rfloor> = 1773"
    by (rule floor_unique) simp_all
  ultimately show "nextCode_pinned (Fin 3) (Fin 1000000000000000) = Fin 1000000000001773"
    using jsRound_int [of 1000000000001773] by (simp add: nextCode_pinned_def step_imei_3)
qed

section \<open>Saving the checkpoint\<close>

text \<open>
  Claim C9. \<open>saveLastState\<close> is to overwrite the checkpoint file with the decimal text of
  the code. It hands the number itself to \<open>writeFileSync\<close>, which throws \<open>TypeError\<close> for a
  number: for every code the call is made and the file is left as it was, and no run
  of the program changes the file. \<open>saveBootloaderCode\<close>, next to it, hands over a
  string.
\<close>

theorem saveLastState_writes_nothing:
  "saved_state_file (saveLastState w code) = saved_state_file w
   \<and> events (saveLastState w code) = events w @ [SaveLastState code]
   \<and> saved_state_file (snd (snd (start fuel cfg msgs dev w))) = saved_state_file w"
proof (intro conjI)
  show "saved_state_file (saveLastState w code) = saved_state_file w"
    by (simp add: saveLastState_def writeFileSync_def Let_def)
  show "events (saveLastState w code) = events w @ [SaveLastState code]"
    by (simp add: saveLastState_def writeFileSync_def Let_def)
  show "saved_state_file (snd (snd (start fuel cfg msgs dev w))) = saved_state_file w"
    by (rule start_file)
qed

theorem saveLastState_writes_nothing_witness:
  "case start (Suc 0)
          \<lparr>imei = Fin 1, autorebootAfter = None, throwOnUnknownErrors = False, saveStateAfter = Some 1\<rparr>
          test_messages rejecting
          \<lparr>saved_state_file = None, code_file = None, events = []\<rparr>
   of (r, b, w) \<Rightarrow>
     events w = [Reboot, Attempt (Fin 1000000000001024), SaveLastState (Fin 1000000000001024)]
     \<and> saved_state_file w = None"
proof -
  let ?cfg = "\<lparr>imei = Fin 1, autorebootAfter = None, throwOnUnknownErrors = False, saveStateAfter = Some 1\<rparr>"
  let ?w = "\<lparr>saved_state_file = None, code_file = None, events = []\<rparr>"
  have N1: "nextCode (Fin 1) (Fin 1000000000000000) = Fin 1000000000001024"
    using nextCode_imei_1_times8 [of 125000000000000] by simp
  have N2: "nextCode (Fin 1) (Fin 1000000000001024) = Fin 1000000000002048"
    using nextCode_imei_1_times8 [of 125000000000128] by simp
  obtain r b w where run: "start (Suc 0) ?cfg test_messages rejecting ?w = (r, b, w)"
    by (cases "start (Suc 0) ?cfg test_messages rejecting ?w")
  have "saved_state_file (snd (snd (start (Suc 0) ?cfg test_messages rejecting ?w)))
      = saved_state_file ?w"
    using saveLastState_writes_nothing [of ?w "Fin 0" "Suc 0" ?cfg test_messages rejecting] by blast
  then have f: "saved_state_file w = None" by (simp add: run)
  have "events w = [Reboot, Attempt (Fin 1000000000001024), SaveLastState (Fin 1000000000001024)]"
    using run by (auto simp: run_defs getLastSavedState_def N1 N2 rejecting_rejected
        saveLastState_def writeFileSync_def)
  then show ?thesis using f by (simp add: run)
qed

section \<open>The padding\<close>

text \<open>
  Claim C10, amended. For every code of at least 1000000000000000 the padding does not
  change the number that is read back, so that \<open>nextCode\<close> returns
  \<open>Math.round(c + Math.sqrt(imei) * 1024)\<close>; the padding leaves the text itself as it is
  as long as the sum is below 10^21.
\<close>

theorem padding_keeps_the_number:
  assumes c: "10 ^ 15 \<le> c" "fl c = Fin c" and i: "0 \<le> i" "fl i = Fin i"
  shows "\<exists>y. jsAdd (Fin c) (jsMul (jsSqrt (Fin i)) (Fin 1024)) = Fin y
           \<and> strToNumber (padStart 16 ''0'' (numToString (Fin y))) = strToNumber (numToString (Fin y))
           \<and> nextCode (Fin i) (Fin c) = jsRound (Fin y)
           \<and> (y < 10 ^ 21 \<longrightarrow> padStart 16 ''0'' (numToString (Fin y)) = numToString (Fin y))"
proof -
  have c0: "0 \<le> c" using c(1) by (simp add: order_trans [of 0 "10 ^ 15"])
  from nextCode_sum [OF c0 c(2) i] obtain s y where
    s: "jsMul (jsSqrt (Fin i)) (Fin 1024) = Fin s" and y: "fl (c + s) = Fin y" "c \<le> y" "fl y = Fin y"
    and n: "nextCode (Fin i) (Fin c) = Fin (of_int \<lfloor>y + 1 / 2\<rfloor>)" by blast
  have y15: "10 ^ 15 \<le> y" using c(1) y(2) by simp
  then have y0: "0 < y" by (simp add: less_le_trans [of 0 "10 ^ 15"])
  have r1: "strToNumber (padStart 16 ''0'' (numToString (Fin y))) = Fin y"
    using y0 by (intro pad_roundtrip y(3)) simp
  have r2: "strToNumber (numToString (Fin y)) = Fin y"
    using pad_roundtrip_pos [OF y0 y(3), of 0] y0 by (simp add: numToString_def)
  have "padStart 16 ''0'' (numToString (Fin y)) = numToString (Fin y)" if "y < 10 ^ 21"
    using pos_to_string_length [OF y15 that y(3)] y0 by (simp add: padStart_def numToString_def)
  then show ?thesis using s y(1) r1 r2 n by simp
qed

theorem padding_keeps_the_number_witness:
  "\<exists>y. jsAdd (Fin 1000000000000000) (jsMul (jsSqrt (Fin 1)) (Fin 1024)) = Fin y
      \<and> strToNumber (padStart 16 ''0'' (numToString (Fin y))) = strToNumber (numToString (Fin y))
      \<and> nextCode (Fin 1) (Fin 1000000000000000) = jsRound (Fin y)
      \<and> y < 10 ^ 21 \<and> padStart 16 ''0'' (numToString (Fin y)) = numToString (Fin y)"
proof -
  have i: "fl 1 = Fin 1" using fl_nat [of 1] by simp
  have c: "fl 1000000000000000 = Fin 1000000000000000" using fl_nat [of 1000000000000000] by simp
  have f: "fl 1000000000001024 = Fin 1000000000001024" using fl_nat [of 1000000000001024] by simp
  from padding_keeps_the_number [of 1000000000000000 1] c i obtain y where
    y: "jsAdd (Fin 1000000000000000) (jsMul (jsSqrt (Fin 1)) (Fin 1024)) = Fin y"
      "strToNumber (padStart 16 ''0'' (numToString (Fin y))) = strToNumber (numToString (Fin y))"
      "nextCode (Fin 1) (Fin 1000000000000000) = jsRound (Fin y)"
      "y < 10 ^ 21 \<longrightarrow> padStart 16 ''0'' (numToString (Fin y)) = numToString (Fin y)"
    by auto
  have "y = 1000000000001024" using y(1) f by (simp add: step_imei_1)
  then have "y < 10 ^ 21" by simp
  then show ?thesis using y by blast
qed

text \<open>
  From 10^21 on the text of a number is in exponent form and shorter than 16 characters:
  for the code 10^21 and the identifier 1 the sum is 10^21, its text \<open>1e+21\<close>, and the
  padding puts eleven zeros in front. This is why C10 does not hold as worded.
\<close>

theorem padding_changes_the_text:
  "jsAdd (Fin (10 ^ 21)) (jsMul (jsSqrt (Fin 1)) (Fin 1024)) = Fin (10 ^ 21)
   \<and> numToString (Fin (10 ^ 21)) = ''1e+21''
   \<and> padStart 16 ''0'' ''1e+21'' = ''000000000001e+21''"
proof (intro conjI)
  have "fl (10 ^ 21 + 1024) = Fin (of_int 7629394531250000 * 2 powi (69 - 52))"
    by (rule fl_eval) simp_all
  then show "jsAdd (Fin (10 ^ 21)) (jsMul (jsSqrt (Fin 1)) (Fin 1024)) = Fin (10 ^ 21)"
    by (simp add: step_imei_1)
  show "numToString (Fin (10 ^ 21)) = ''1e+21''" by (rule numToString_1e21)
  show "padStart 16 ''0'' ''1e+21'' = ''000000000001e+21''"
    by (simp add: padStart_zero eval_nat_numeral)
qed

end
